theory Spec2Isabelle
  imports Complex_Main "HOL-Library.Word" "HOL-Library.Monad_Syntax" "HOL-Library.Char_ord"
begin

unbundle bit_operations_syntax

section \<open>Errors\<close>

text \<open>
  A JavaScript call either returns a value or throws. The functions below return
  \<open>error + 'a\<close>: \<open>Inl\<close> is a thrown exception, \<open>Inr\<close> a normal return. The source has
  no \<open>throw\<close> statement of its own; the only exceptions are the engine's: a \<open>TypeError\<close>
  when a property of \<open>undefined\<close> is read (or an empty array is reduced without a start
  value), and a \<open>RangeError\<close> when the call stack is exhausted.
  A value of type \<open>'a option\<close> is a JavaScript value that may be \<open>undefined\<close> (\<open>None\<close>).
\<close>

datatype error = TypeError | RangeError

section \<open>Tokenizer (src/lib/gpt.ts, createTokenizer)\<close>

text \<open>
  Characters are kept abstract: any linearly ordered type, the order being the one
  \<open>Array.prototype.sort\<close> uses on one-character strings.
\<close>

record 'c tokenizer =
  uchars :: "'c list"
  charToId :: "'c \<rightharpoonup> nat"
  BOS :: nat
  vocabSize :: nat

text \<open>\<open>charSet.add(ch)\<close>: a JavaScript Set keeps the order of first insertion.\<close>

definition set_add :: "'c list \<Rightarrow> 'c \<Rightarrow> 'c list" where
  "set_add charSet ch = (if ch \<in> set charSet then charSet else charSet @ [ch])"

text \<open>\<open>new Map(entries)\<close>: entries are stored left to right, a later one overriding.\<close>

definition new_Map :: "('k \<times> 'v) list \<Rightarrow> ('k \<rightharpoonup> 'v)" where
  "new_Map entries = foldl (\<lambda>m (k, v). m(k \<mapsto> v)) Map.empty entries"

definition createTokenizer :: "('c::linorder) list list \<Rightarrow> 'c tokenizer" where
  "createTokenizer docs =
     (let charSet = foldl (\<lambda>cs doc. foldl set_add cs doc) [] docs;
          uchars = sort charSet
      in \<lparr> uchars = uchars,
           charToId = new_Map (zip uchars [0..<length uchars]),
           BOS = length uchars,
           vocabSize = length uchars + 1 \<rparr>)"

text \<open>
  \<open>encode\<close>: \<open>[BOS, ...Array.from(s, (ch) => charToId.get(ch)!), BOS]\<close>. The \<open>!\<close> is a
  compile-time assertion only; a missing character yields \<open>undefined\<close> in the array.
\<close>

definition encode :: "'c tokenizer \<Rightarrow> 'c list \<Rightarrow> error + nat option list" where
  "encode tk s = Inr ([Some (BOS tk)] @ map (charToId tk) s @ [Some (BOS tk)])"

text \<open>
  \<open>decode\<close>: \<open>ids.filter((id) => id !== BOS).map((id) => uchars[id]).join("")\<close>.
  \<open>uchars[id]\<close> is \<open>undefined\<close> for an id that is \<open>undefined\<close> or out of range, and
  \<open>join\<close> renders \<open>undefined\<close> as the empty string.
\<close>

definition array_get :: "'a list \<Rightarrow> nat option \<Rightarrow> 'a option" where
  "array_get xs i = (case i of None \<Rightarrow> None
                     | Some j \<Rightarrow> if j < length xs then Some (xs ! j) else None)"

definition join_chars :: "'c option list \<Rightarrow> 'c list" where
  "join_chars cs = concat (map (\<lambda>c. case c of None \<Rightarrow> [] | Some ch \<Rightarrow> [ch]) cs)"

definition decode :: "'c tokenizer \<Rightarrow> nat option list \<Rightarrow> 'c list" where
  "decode tk ids =
     join_chars (map (array_get (uchars tk)) (filter (\<lambda>id. id \<noteq> Some (BOS tk)) ids))"

section \<open>Numbers and the data of a Value\<close>

text \<open>
  A JavaScript number is modelled as a real: rounding, the infinities and NaN are not
  represented. Where the source yields NaN or an infinity (a division by zero, a power of
  0 with a negative exponent, the logarithm of a non-positive number, an array read beyond
  the end used as a number) the model has no value for it: the operations of the autograd
  engine return \<open>None\<close> there, and in the functions on plain numbers the value is a real
  without meaning; every theorem below either excludes such a point by a hypothesis or
  does not depend on the value.

  The functions of this section compute the \<open>data\<close> field of the Value that the
  corresponding source function builds.
\<close>

definition bind_err :: "error + 'a \<Rightarrow> ('a \<Rightarrow> error + 'b) \<Rightarrow> error + 'b" where
  "bind_err m f = (case m of Inl e \<Rightarrow> Inl e | Inr v \<Rightarrow> f v)"

fun map_err :: "('a \<Rightarrow> error + 'b) \<Rightarrow> 'a list \<Rightarrow> error + 'b list" where
  "map_err f [] = Inr []"
| "map_err f (x # xs) = bind_err (f x) (\<lambda>y. bind_err (map_err f xs) (\<lambda>ys. Inr (y # ys)))"

fun foldl_err :: "('s \<Rightarrow> 'a \<Rightarrow> error + 's) \<Rightarrow> 's \<Rightarrow> 'a list \<Rightarrow> error + 's" where
  "foldl_err f s [] = Inr s"
| "foldl_err f s (x # xs) = bind_err (f s x) (\<lambda>s'. foldl_err f s' xs)"

text \<open>\<open>x ** e\<close>: an integral exponent is a power or its inverse, any other \<open>exp (e * ln x)\<close>.\<close>

definition js_pow :: "real \<Rightarrow> real \<Rightarrow> real" where
  "js_pow x e = (if e \<in> \<int> then x powi \<lfloor>e\<rfloor> else x powr e)"

text \<open>
  \<open>x ** e\<close> is a number, and then \<open>js_pow x e\<close>, except for \<open>x = 0\<close> with a negative
  exponent (\<open>Infinity\<close>) and for a negative \<open>x\<close> with an exponent that is not integral
  (\<open>NaN\<close>); \<open>x ** 0\<close> is 1 for every \<open>x\<close>.
\<close>

definition pow_finite :: "real \<Rightarrow> real \<Rightarrow> bool" where
  "pow_finite x e \<longleftrightarrow> (if x = 0 then 0 \<le> e else if x < 0 then e \<in> \<int> else True)"

text \<open>\<open>vsum\<close>: \<open>vals.reduce((a, b) => a.add(b))\<close>; reducing an empty array throws.\<close>

definition vsum :: "real list \<Rightarrow> error + real" where
  "vsum vals = (case vals of [] \<Rightarrow> Inl TypeError | v # vs \<Rightarrow> Inr (foldl (+) v vs))"

text \<open>
  \<open>Math.max(...xs)\<close>. For the empty list the source has \<open>-Infinity\<close>, written 0 here: the
  only caller, \<open>softmax\<close>, then maps over the same empty list and never uses it.
\<close>

definition Math_max :: "real list \<Rightarrow> real" where
  "Math_max xs = (if xs = [] then 0 else Max (set xs))"

text \<open>
  \<open>softmax\<close>: \<open>v.sub(maxVal)\<close> is \<open>v.add(-maxVal)\<close>, and \<open>e.div(total)\<close> is
  \<open>e.mul(total.pow(-1))\<close>.
\<close>

definition softmax_exps :: "real list \<Rightarrow> real list" where
  "softmax_exps logits = (let maxVal = Math_max logits in map (\<lambda>v. exp (v + - maxVal)) logits)"

definition softmax :: "real list \<Rightarrow> error + real list" where
  "softmax logits =
     (let exps = softmax_exps logits
      in bind_err (vsum exps) (\<lambda>total. Inr (map (\<lambda>e. e * js_pow total (- 1)) exps)))"

section \<open>Mersenne Twister PRNG (src/lib/gpt.ts, class MersenneTwister)\<close>

text \<open>
  \<open>mt\<close> is a \<open>Uint32Array(624)\<close>: every store wraps modulo \<open>2^32\<close>, which is what the
  arithmetic of \<open>32 word\<close> does. \<open>Math.imul(a, b) >>> 0\<close> is the product of two words.
\<close>

record MersenneTwister =
  mt :: "32 word list"
  idx :: nat
  gaussNext :: "real option"

text \<open>The key: the base-\<open>2^32\<close> digits of the seed, lowest first; \<open>[0]\<close> if there are none.\<close>

function seed_key :: "nat \<Rightarrow> 32 word list" where
  "seed_key v = (if v > 0 then word_of_nat v # seed_key (v div 4294967296) else [])"
  by pat_completeness auto
termination
  by (relation "measure (\<lambda>v. v)") auto

definition seed_init :: "32 word list \<Rightarrow> 32 word list" where
  "seed_init m0 =
     foldl (\<lambda>m i. m[i := 1812433253 * (m ! (i - 1) XOR drop_bit 30 (m ! (i - 1))) + word_of_nat i])
       (m0[0 := 19650218]) [1..<624]"

fun seed_mix_key :: "32 word list \<Rightarrow> nat \<Rightarrow> 32 word list \<times> nat \<times> nat \<Rightarrow> 32 word list \<times> nat \<times> nat" where
  "seed_mix_key key 0 s = s"
| "seed_mix_key key (Suc k) (m, i, j) =
     (let (m, i) = (if i \<ge> 624 then (m[0 := m ! 623], 1) else (m, i));
          j = (if j \<ge> length key then 0 else j);
          m = m[i := (m ! i XOR (m ! (i - 1) XOR drop_bit 30 (m ! (i - 1))) * 1664525)
                      + key ! j + word_of_nat j]
      in seed_mix_key key k (m, i + 1, j + 1))"

fun seed_mix_idx :: "nat \<Rightarrow> 32 word list \<times> nat \<Rightarrow> 32 word list \<times> nat" where
  "seed_mix_idx 0 s = s"
| "seed_mix_idx (Suc k) (m, i) =
     (let (m, i) = (if i \<ge> 624 then (m[0 := m ! 623], 1) else (m, i));
          m = m[i := (m ! i XOR (m ! (i - 1) XOR drop_bit 30 (m ! (i - 1))) * 1566083941)
                      - word_of_nat i]
      in seed_mix_idx k (m, i + 1))"

text \<open>
  \<open>seed(n)\<close> for an integral \<open>n\<close>; a seed that is not positive gives the key \<open>[0]\<close>.
\<close>

definition seed :: "int \<Rightarrow> MersenneTwister \<Rightarrow> MersenneTwister" where
  "seed n s =
     (let key = seed_key (nat n);
          key = (if key = [] then [0] else key);
          m = seed_init (mt s);
          (m, i, j) = seed_mix_key key (max 624 (length key)) (m, 1, 0);
          (m, i) = seed_mix_idx 623 (m, i);
          m = m[0 := 0x80000000]
      in \<lparr> mt = m, idx = 624, gaussNext = None \<rparr>)"

definition MersenneTwister_new :: "int \<Rightarrow> MersenneTwister" where
  "MersenneTwister_new n = seed n \<lparr> mt = replicate 624 0, idx = 625, gaussNext = None \<rparr>"

definition twist :: "32 word list \<Rightarrow> 32 word list" where
  "twist m0 =
     foldl (\<lambda>m k. let y = (m ! k AND 0x80000000) OR (m ! ((k + 1) mod 624) AND 0x7fffffff)
                  in m[k := m ! ((k + 397) mod 624) XOR drop_bit 1 y
                            XOR (if y AND 1 \<noteq> 0 then 0x9908b0df else 0)])
       m0 [0..<624]"

definition int32 :: "MersenneTwister \<Rightarrow> 32 word \<times> MersenneTwister" where
  "int32 s =
     (let s = (if idx s \<ge> 624 then s\<lparr> mt := twist (mt s), idx := 0 \<rparr> else s);
          y = mt s ! idx s;
          s = s\<lparr> idx := idx s + 1 \<rparr>;
          y = y XOR drop_bit 11 y;
          y = y XOR (push_bit 7 y AND 0x9d2c5680);
          y = y XOR (push_bit 15 y AND 0xefc60000);
          y = y XOR drop_bit 18 y
      in (y, s))"

definition random :: "MersenneTwister \<Rightarrow> real \<times> MersenneTwister" where
  "random s =
     (let (a, s) = int32 s;
          (b, s) = int32 s
      in ((real (unat (drop_bit 5 a)) * 67108864 + real (unat (drop_bit 6 b)))
            / 9007199254740992, s))"

text \<open>
  \<open>choices(population, weights)\<close>. \<open>cum\<close> holds the running sums; the binary search
  returns the first index whose running sum exceeds \<open>x\<close>, or the last index. An index
  beyond \<open>population\<close> reads \<open>undefined\<close>. For an empty \<open>weights\<close> the source has
  \<open>x = NaN\<close> and \<open>hi = -1\<close>: the loop does not run and \<open>population[0]\<close> is returned, as
  here. Nothing in the function throws.
\<close>

fun cum_from :: "real \<Rightarrow> real list \<Rightarrow> real list" where
  "cum_from acc [] = []"
| "cum_from acc (w # ws) = (acc + w) # cum_from (acc + w) ws"

definition cum_weights :: "real list \<Rightarrow> real list" where
  "cum_weights weights = (case weights of [] \<Rightarrow> [] | w # ws \<Rightarrow> w # cum_from w ws)"

function choices_search :: "real list \<Rightarrow> real \<Rightarrow> nat \<Rightarrow> nat \<Rightarrow> nat" where
  "choices_search cum x lo hi =
     (if lo < hi
      then (let mid = (lo + hi) div 2
            in if x < cum ! mid then choices_search cum x lo mid
               else choices_search cum x (mid + 1) hi)
      else lo)"
  by pat_completeness auto
termination
  by (relation "measure (\<lambda>(cum, x, lo, hi). hi - lo)") auto

definition choices :: "'a list \<Rightarrow> real list \<Rightarrow> MersenneTwister \<Rightarrow> (error + 'a option) \<times> MersenneTwister" where
  "choices population weights s =
     (let cum = cum_weights weights;
          (r, s) = random s;
          x = r * cum ! (length cum - 1);
          lo = choices_search cum x 0 (length cum - 1)
      in (Inr (array_get population (Some lo)), s))"

section \<open>Autograd engine (src/lib/value.ts)\<close>

text \<open>
  A \<open>Value\<close> object is a cell of a heap, and a reference to it is its index: objects are
  created by \<open>new Value\<close>, which appends a cell, and are never removed. The fields \<open>_c0\<close>,
  \<open>_c1\<close>, \<open>_lg0\<close>, \<open>_lg1\<close>, \<open>_nch\<close>, \<open>_gen\<close> are \<open>c0\<close>, \<open>c1\<close>, \<open>lg0\<close>, \<open>lg1\<close>, \<open>nch\<close>, \<open>gen\<close>.
  The module-level counter \<open>_gen\<close> is \<open>gen_counter\<close>.
\<close>

record Value =
  data :: real
  grad :: real
  c0 :: "nat option"
  c1 :: "nat option"
  lg0 :: real
  lg1 :: real
  nch :: nat
  gen :: nat

record heap =
  cells :: "Value list"
  gen_counter :: nat

definition Value_new :: "real \<Rightarrow> nat list \<Rightarrow> real list \<Rightarrow> Value" where
  "Value_new d children localGrads =
     \<lparr> data = d, grad = 0,
       c0 = array_get children (Some 0),
       c1 = array_get children (Some 1),
       lg0 = (case array_get localGrads (Some 0) of None \<Rightarrow> 0 | Some g \<Rightarrow> g),
       lg1 = (case array_get localGrads (Some 1) of None \<Rightarrow> 0 | Some g \<Rightarrow> g),
       nch = length children,
       gen = 0 \<rparr>"

definition alloc :: "heap \<Rightarrow> Value \<Rightarrow> heap \<times> nat" where
  "alloc h v = (h\<lparr> cells := cells h @ [v] \<rparr>, length (cells h))"

text \<open>The argument \<open>other: Value | number\<close> of the binary operations.\<close>

datatype operand = Val nat | Num real

text \<open>
  The operations take the heap, the address of \<open>this\<close> and the argument, and return the
  heap with the new cell(s) and the address of the result. \<open>pow\<close>, \<open>log\<close> and \<open>div\<close> return
  \<open>None\<close> where the source stores \<open>Infinity\<close> or \<open>NaN\<close> in the new Value, as its data or as a
  local gradient: \<open>x.pow(e)\<close> unless both \<open>x ** e\<close> and \<open>x ** (e - 1)\<close> are numbers (at
  \<open>x = 0\<close> the exponent 0 gives the local gradient \<open>0 * Infinity = NaN\<close>), \<open>x.log()\<close> for
  \<open>x \<le> 0\<close>, \<open>x.div(0)\<close>, which is \<open>x.mul(1 / 0)\<close>, and \<open>x.div(y)\<close>, which starts with
  \<open>y.pow(-1)\<close>, for \<open>y\<close> of data 0. The source goes on with that value; the model, whose
  numbers are reals, does not follow it there.
\<close>

definition add :: "heap \<Rightarrow> nat \<Rightarrow> operand \<Rightarrow> heap \<times> nat" where
  "add h a other =
     (case other of
        Val b \<Rightarrow> alloc h (Value_new (data (cells h ! a) + data (cells h ! b)) [a, b] [1, 1])
      | Num n \<Rightarrow> alloc h (Value_new (data (cells h ! a) + n) [a] [1]))"

definition mul :: "heap \<Rightarrow> nat \<Rightarrow> operand \<Rightarrow> heap \<times> nat" where
  "mul h a other =
     (case other of
        Val b \<Rightarrow> alloc h (Value_new (data (cells h ! a) * data (cells h ! b)) [a, b]
                          [data (cells h ! b), data (cells h ! a)])
      | Num n \<Rightarrow> alloc h (Value_new (data (cells h ! a) * n) [a] [n]))"

definition pow :: "heap \<Rightarrow> nat \<Rightarrow> real \<Rightarrow> (heap \<times> nat) option" where
  "pow h a e =
     (if pow_finite (data (cells h ! a)) e \<and> pow_finite (data (cells h ! a)) (e - 1)
      then Some (alloc h (Value_new (js_pow (data (cells h ! a)) e) [a]
                   [e * js_pow (data (cells h ! a)) (e - 1)]))
      else None)"

definition log_v :: "heap \<Rightarrow> nat \<Rightarrow> (heap \<times> nat) option" where
  "log_v h a =
     (if 0 < data (cells h ! a)
      then Some (alloc h (Value_new (ln (data (cells h ! a))) [a] [1 / data (cells h ! a)]))
      else None)"

text \<open>\<open>log\<close> and \<open>exp\<close> of the source are \<open>log_v\<close> and \<open>exp_v\<close> (the names are taken).\<close>

definition exp_v :: "heap \<Rightarrow> nat \<Rightarrow> heap \<times> nat" where
  "exp_v h a = (let e = exp (data (cells h ! a)) in alloc h (Value_new e [a] [e]))"

definition relu :: "heap \<Rightarrow> nat \<Rightarrow> heap \<times> nat" where
  "relu h a =
     alloc h (Value_new (max 0 (data (cells h ! a))) [a] [if data (cells h ! a) > 0 then 1 else 0])"

definition neg :: "heap \<Rightarrow> nat \<Rightarrow> heap \<times> nat" where
  "neg h a = alloc h (Value_new (- data (cells h ! a)) [a] [- 1])"

definition sub :: "heap \<Rightarrow> nat \<Rightarrow> operand \<Rightarrow> heap \<times> nat" where
  "sub h a other =
     (case other of
        Val b \<Rightarrow> (let (h, nb) = neg h b in add h a (Val nb))
      | Num n \<Rightarrow> add h a (Num (- n)))"

definition div_v :: "heap \<Rightarrow> nat \<Rightarrow> operand \<Rightarrow> (heap \<times> nat) option" where
  "div_v h a other =
     (case other of
        Val b \<Rightarrow> (case pow h b (- 1) of None \<Rightarrow> None | Some (h, pb) \<Rightarrow> Some (mul h a (Val pb)))
      | Num n \<Rightarrow> (if n = 0 then None else Some (mul h a (Num (1 / n)))))"

text \<open>
  \<open>buildTopo\<close>, the recursive function inside \<open>backward\<close>. The first argument bounds the
  depth of the recursion (the call stack of the engine): \<open>RangeError\<close> when it is used up.
  The state is the heap cells and \<open>topo\<close>. Reading \<open>_gen\<close> of an \<open>undefined\<close> child throws.
\<close>

fun buildTopo :: "nat \<Rightarrow> nat \<Rightarrow> nat \<Rightarrow> Value list \<times> nat list \<Rightarrow> error + Value list \<times> nat list" where
  "buildTopo 0 g v st = Inl RangeError"
| "buildTopo (Suc depth) g v (vs, topo) =
     (if gen (vs ! v) = g then Inr (vs, topo)
      else
        let vs = vs[v := (vs ! v)\<lparr> gen := g \<rparr>]
        in bind_err (if nch (vs ! v) \<ge> 1
                     then (case c0 (vs ! v) of None \<Rightarrow> Inl TypeError
                           | Some c \<Rightarrow> buildTopo depth g c (vs, topo))
                     else Inr (vs, topo)) (\<lambda>st.
           bind_err (if nch (fst st ! v) = 2
                     then (case c1 (fst st ! v) of None \<Rightarrow> Inl TypeError
                           | Some c \<Rightarrow> buildTopo depth g c st)
                     else Inr st) (\<lambda>(vs, topo).
           Inr (vs, topo @ [v]))))"

text \<open>One iteration of the loop of \<open>backward\<close>, for the cell \<open>v = topo[i]\<close>.\<close>

definition backward_step :: "Value list \<Rightarrow> nat \<Rightarrow> error + Value list" where
  "backward_step vs v =
     (let g = grad (vs ! v)
      in bind_err (if nch (vs ! v) \<ge> 1
                   then (case c0 (vs ! v) of None \<Rightarrow> Inl TypeError
                         | Some c \<Rightarrow> Inr (vs[c := (vs ! c)\<lparr> grad := grad (vs ! c) + lg0 (vs ! v) * g \<rparr>]))
                   else Inr vs) (\<lambda>vs.
         if nch (vs ! v) = 2
         then (case c1 (vs ! v) of None \<Rightarrow> Inl TypeError
               | Some c \<Rightarrow> Inr (vs[c := (vs ! c)\<lparr> grad := grad (vs ! c) + lg1 (vs ! v) * g \<rparr>]))
         else Inr vs))"

text \<open>
  \<open>this.backward()\<close>, with the recursion depth available to \<open>buildTopo\<close>. The loop runs
  over \<open>topo\<close> from its last element to its first.
\<close>

definition backward :: "nat \<Rightarrow> nat \<Rightarrow> heap \<Rightarrow> error + heap" where
  "backward depth this h =
     (let g = gen_counter h + 1
      in bind_err (buildTopo depth g this (cells h, [])) (\<lambda>(vs, topo).
         let vs = vs[this := (vs ! this)\<lparr> grad := 1 \<rparr>]
         in bind_err (foldl_err backward_step vs (rev topo)) (\<lambda>vs.
            Inr \<lparr> cells = vs, gen_counter = g \<rparr>)))"

section \<open>GPT model: forward pass (src/lib/gpt.ts, class GPTModel)\<close>

type_synonym matrix = "real list list"

text \<open>The field \<open>vocabSize\<close> of \<open>GPTConfig\<close> is \<open>cfg_vocabSize\<close> (the tokenizer has one too).\<close>

record GPTConfig =
  nEmbd :: nat
  nHead :: nat
  nLayer :: nat
  blockSize :: nat
  cfg_vocabSize :: nat

text \<open>
  \<open>stateDict\<close>: the entry \<open>stateDict[`layer${i}.attn_wq`]\<close> is \<open>attn_wq (layers sd ! i)\<close>,
  and \<open>undefined\<close> when \<open>i\<close> is not below the number of layers.
\<close>

record LayerParams =
  attn_wq :: matrix
  attn_wk :: matrix
  attn_wv :: matrix
  attn_wo :: matrix
  mlp_fc1 :: matrix
  mlp_fc2 :: matrix

record StateDict =
  wte :: matrix
  wpe :: matrix
  lm_head :: matrix
  layers :: "LayerParams list"

record AttentionData =
  layer :: nat
  head :: nat
  weights :: "real list list"

text \<open>Reading an element of an array that may be \<open>undefined\<close> and then using it as an object.\<close>

definition deref :: "'a list \<Rightarrow> nat \<Rightarrow> error + 'a" where
  "deref xs i = (if i < length xs then Inr (xs ! i) else Inl TypeError)"

text \<open>\<open>linear\<close> of the source (the name is taken by a constant of the library).\<close>

definition linear_gpt :: "real list \<Rightarrow> matrix \<Rightarrow> error + real list" where
  "linear_gpt x w = map_err (\<lambda>wo. vsum (map (\<lambda>i. wo ! i * x ! i) [0..<length wo])) w"

definition rmsnorm :: "real list \<Rightarrow> error + real list" where
  "rmsnorm x =
     bind_err (vsum (map (\<lambda>xi. xi * xi) x)) (\<lambda>sq.
       let ms = sq * (1 / real (length x));
           s = js_pow (ms + 1 / 100000) (- (1 / 2))
       in Inr (map (\<lambda>xi. xi * s) x))"

text \<open>
  One head of one layer: the body of the loop \<open>for (let h = 0; h < nHead; h++)\<close>. The state
  is \<open>(xAttn, attentionData)\<close>. \<open>vH[t][j]\<close> throws when the value cache is shorter than
  the key cache.
\<close>

definition forward_head ::
  "nat \<Rightarrow> bool \<Rightarrow> nat \<Rightarrow> real list \<Rightarrow> real list list \<Rightarrow> real list list
   \<Rightarrow> real list \<times> AttentionData list \<Rightarrow> nat \<Rightarrow> error + real list \<times> AttentionData list" where
  "forward_head headDim collectAttention li q keys_li values_li st h =
     (let (xAttn, attentionData) = st;
          scale = 1 / js_pow (real headDim) (1 / 2);
          hs = h * headDim;
          qH = take headDim (drop hs q);
          kH = map (\<lambda>ki. take headDim (drop hs ki)) keys_li;
          vH = map (\<lambda>vi. take headDim (drop hs vi)) values_li
      in bind_err (map_err (\<lambda>kt. bind_err (vsum (map (\<lambda>j. qH ! j * kt ! j) [0..<length qH]))
                                    (\<lambda>d. Inr (d * scale))) kH) (\<lambda>attnLogits.
         bind_err (softmax attnLogits) (\<lambda>attnWeights.
         let attentionData =
               (if collectAttention
                then attentionData @ [\<lparr> layer = li, head = h, weights = [attnWeights] \<rparr>]
                else attentionData)
         in bind_err (map_err (\<lambda>j.
                bind_err (map_err (\<lambda>t. bind_err (deref vH t) (\<lambda>vt. Inr (attnWeights ! t * vt ! j)))
                            [0..<length attnWeights]) vsum)
              [0..<headDim]) (\<lambda>outs.
         Inr (xAttn @ outs, attentionData)))))"

text \<open>
  One layer: the body of the loop \<open>for (let li = 0; li < nLayer; li++)\<close>. The state is
  \<open>(x, keys, values, attentionData)\<close>; \<open>keys[li].push(k)\<close> and \<open>values[li].push(v)\<close> update the
  caller's caches. \<open>headDim\<close> is \<open>nEmbd / nHead\<close>, an integer for the configurations built
  by the constructor (16 / 4).
\<close>

definition forward_layer ::
  "GPTConfig \<Rightarrow> StateDict \<Rightarrow> bool
   \<Rightarrow> real list \<times> real list list list \<times> real list list list \<times> AttentionData list \<Rightarrow> nat
   \<Rightarrow> error + real list \<times> real list list list \<times> real list list list \<times> AttentionData list" where
  "forward_layer cfg sd collectAttention st li =
     (let (x, keys, values, attentionData) = st;
          headDim = nEmbd cfg div nHead cfg;
          xResidual = x
      in bind_err (rmsnorm x) (\<lambda>x.
         bind_err (deref (layers sd) li) (\<lambda>lp.
         bind_err (linear_gpt x (attn_wq lp)) (\<lambda>q.
         bind_err (linear_gpt x (attn_wk lp)) (\<lambda>k.
         bind_err (linear_gpt x (attn_wv lp)) (\<lambda>v.
         bind_err (deref keys li) (\<lambda>keys_li.
         let keys = keys[li := keys_li @ [k]] in
         bind_err (deref values li) (\<lambda>values_li.
         let values = values[li := values_li @ [v]] in
         bind_err (foldl_err (forward_head headDim collectAttention li q (keys ! li) (values ! li))
                     ([], attentionData) [0..<nHead cfg]) (\<lambda>(xAttn, attentionData).
         bind_err (linear_gpt xAttn (attn_wo lp)) (\<lambda>x.
         let x = map (\<lambda>i. x ! i + xResidual ! i) [0..<length x];
             xRes2 = x
         in bind_err (rmsnorm x) (\<lambda>x.
            bind_err (linear_gpt x (mlp_fc1 lp)) (\<lambda>x.
            let x = map (\<lambda>xi. max 0 xi) x
            in bind_err (linear_gpt x (mlp_fc2 lp)) (\<lambda>x.
               let x = map (\<lambda>i. x ! i + xRes2 ! i) [0..<length x]
               in Inr (x, keys, values, attentionData))))))))))))))"

text \<open>
  \<open>forward(tokenId, posId, keys, values, collectAttention)\<close>. The token id may be
  \<open>undefined\<close>. The result holds the logits, the attention data of this call and the
  updated caches.
\<close>

definition forward ::
  "GPTConfig \<Rightarrow> StateDict \<Rightarrow> nat option \<Rightarrow> nat \<Rightarrow> real list list list \<Rightarrow> real list list list \<Rightarrow> bool
   \<Rightarrow> error + real list \<times> AttentionData list \<times> real list list list \<times> real list list list" where
  "forward cfg sd tokenId posId keys values collectAttention =
     (case array_get (wte sd) tokenId of
        None \<Rightarrow> Inl TypeError
      | Some tokEmb \<Rightarrow>
          bind_err (if tokEmb = [] then Inr [] else deref (wpe sd) posId) (\<lambda>posEmb.
          let x = map (\<lambda>i. tokEmb ! i + posEmb ! i) [0..<length tokEmb]
          in bind_err (rmsnorm x) (\<lambda>x.
             bind_err (foldl_err (forward_layer cfg sd collectAttention) (x, keys, values, [])
                         [0..<nLayer cfg]) (\<lambda>(x, keys, values, attentionData).
             bind_err (linear_gpt x (lm_head sd)) (\<lambda>logits.
             Inr (logits, attentionData, keys, values))))))"

section \<open>GPT model: inference and the optimizer step (src/lib/gpt.ts)\<close>

text \<open>
  Merging the attention data of one forward call into the accumulated list: the first
  entry with the same layer and head gets the new row appended, otherwise the entry is
  appended.
\<close>

fun merge_one :: "AttentionData list \<Rightarrow> AttentionData \<Rightarrow> AttentionData list" where
  "merge_one [] ad = [ad]"
| "merge_one (a # as) ad =
     (if layer a = layer ad \<and> head a = head ad
      then a\<lparr> weights := weights a @ [hd (weights ad)] \<rparr> # as
      else a # merge_one as ad)"

definition merge_attention :: "AttentionData list \<Rightarrow> AttentionData list \<Rightarrow> AttentionData list" where
  "merge_attention allAttention attentionData = foldl merge_one allAttention attentionData"

text \<open>
  \<open>logits.map((l) => l.div(temperature))\<close>; \<open>l.div(t)\<close> with a number \<open>t\<close> is
  \<open>l.mul(1 / t)\<close>. The temperature is used as it is given. For the temperature 0 the
  source multiplies by \<open>Infinity\<close>, for which the model has no value: what is stated about
  the draws of \<open>generate\<close> is stated for a temperature other than 0.
\<close>

definition scale_logits :: "real \<Rightarrow> real list \<Rightarrow> real list" where
  "scale_logits temperature logits = map (\<lambda>l. l * (1 / temperature)) logits"

text \<open>
  The loop of \<open>generate\<close>, from position \<open>posId\<close> on. The state is
  \<open>(tokenId, keys, vals, tokenIds, allAttention, rng)\<close>; the sampled token may be
  \<open>undefined\<close> (a read beyond \<open>tokenPool\<close>). \<open>tokenChars\<close> and \<open>text\<close>, a rendering of
  \<open>tokenIds\<close>, are left out.
\<close>

function generate_loop ::
  "GPTConfig \<Rightarrow> StateDict \<Rightarrow> nat \<Rightarrow> real \<Rightarrow> nat \<Rightarrow> nat
   \<Rightarrow> nat option \<times> real list list list \<times> real list list list \<times> nat option list
       \<times> AttentionData list \<times> MersenneTwister
   \<Rightarrow> error + nat option list \<times> AttentionData list \<times> MersenneTwister" where
  "generate_loop cfg sd bos temperature len posId (tokenId, keys, vals, tokenIds, allAttention, rng) =
     (if posId < len
      then bind_err (forward cfg sd tokenId posId keys vals True) (\<lambda>(logits, attentionData, keys, vals).
           let scaledLogits = scale_logits temperature logits
           in bind_err (softmax scaledLogits) (\<lambda>probs.
              let tokenPool = [0..<cfg_vocabSize cfg];
                  wts = probs;
                  (r, rng) = choices tokenPool wts rng
              in bind_err r (\<lambda>tokenId.
                 if tokenId = Some bos then Inr (tokenIds, allAttention, rng)
                 else generate_loop cfg sd bos temperature len (posId + 1)
                        (tokenId, keys, vals, tokenIds @ [tokenId],
                         merge_attention allAttention attentionData, rng))))
      else Inr (tokenIds, allAttention, rng))"
  by pat_completeness auto
termination
  by (relation "measure (\<lambda>(cfg, sd, bos, temperature, len, posId, st). len - posId)") auto

declare generate_loop.simps [simp del]

text \<open>\<open>generate(temperature, maxLen)\<close>; \<open>maxLen\<close> is \<open>None\<close> when the argument is omitted.\<close>

definition generate ::
  "GPTConfig \<Rightarrow> StateDict \<Rightarrow> nat \<Rightarrow> MersenneTwister \<Rightarrow> real \<Rightarrow> nat option
   \<Rightarrow> error + nat option list \<times> AttentionData list \<times> MersenneTwister" where
  "generate cfg sd bos rng temperature maxLen =
     (let keys = replicate (nLayer cfg) [];
          vals = replicate (nLayer cfg) [];
          tokenId = Some bos;
          len = (case maxLen of None \<Rightarrow> blockSize cfg | Some l \<Rightarrow> l)
      in generate_loop cfg sd bos temperature len 0 (tokenId, keys, vals, [], [], rng))"

text \<open>
  The Adam update of \<open>trainStep\<close>, for one parameter: \<open>p\<close> is its data, \<open>g\<close> the gradient
  left by \<open>loss.backward()\<close>, \<open>mi\<close> and \<open>vi\<close> its moment estimates. \<open>lrT\<close> is the learning
  rate of the step.
\<close>

record Adam =
  learningRate :: real
  beta1 :: real
  beta2 :: real
  epsAdam :: real

definition lrT :: "Adam \<Rightarrow> nat \<Rightarrow> real \<Rightarrow> real" where
  "lrT a step numSteps = learningRate a * (1 - real step / numSteps)"

definition adam_update :: "Adam \<Rightarrow> nat \<Rightarrow> real \<Rightarrow> real \<times> real \<times> real \<Rightarrow> real \<Rightarrow> real \<times> real \<times> real" where
  "adam_update a step numSteps pmv g =
     (let (p, mi, vi) = pmv;
          bc1 = 1 - beta1 a ^ (step + 1);
          bc2 = 1 - beta2 a ^ (step + 1);
          mi = beta1 a * mi + (1 - beta1 a) * g;
          vi = beta2 a * vi + (1 - beta2 a) * js_pow g 2;
          mHat = mi / bc1;
          vHat = vi / bc2;
          p = p - lrT a step numSteps * mHat / (sqrt vHat + epsAdam a)
      in (p, mi, vi))"

text \<open>The optimizer constants set by the constructor.\<close>

definition adam_default :: Adam where
  "adam_default = \<lparr> learningRate = 1 / 100, beta1 = 85 / 100, beta2 = 99 / 100,
                    epsAdam = 1 / 100000000 \<rparr>"

text \<open>The shapes the constructor gives the parameter matrices.\<close>

definition matrix_ok :: "nat \<Rightarrow> nat \<Rightarrow> matrix \<Rightarrow> bool" where
  "matrix_ok nout nin w \<longleftrightarrow> length w = nout \<and> (\<forall>row\<in>set w. length row = nin)"

definition layer_ok :: "nat \<Rightarrow> LayerParams \<Rightarrow> bool" where
  "layer_ok n lp \<longleftrightarrow>
     matrix_ok n n (attn_wq lp) \<and> matrix_ok n n (attn_wk lp) \<and> matrix_ok n n (attn_wv lp)
     \<and> matrix_ok n n (attn_wo lp) \<and> matrix_ok (4 * n) n (mlp_fc1 lp)
     \<and> matrix_ok n (4 * n) (mlp_fc2 lp)"

definition shape_ok :: "GPTConfig \<Rightarrow> StateDict \<Rightarrow> bool" where
  "shape_ok cfg sd \<longleftrightarrow>
     0 < nEmbd cfg \<and> 0 < nHead cfg \<and> nHead cfg dvd nEmbd cfg
     \<and> matrix_ok (cfg_vocabSize cfg) (nEmbd cfg) (wte sd)
     \<and> matrix_ok (blockSize cfg) (nEmbd cfg) (wpe sd)
     \<and> matrix_ok (cfg_vocabSize cfg) (nEmbd cfg) (lm_head sd)
     \<and> length (layers sd) = nLayer cfg
     \<and> (\<forall>lp\<in>set (layers sd). layer_ok (nEmbd cfg) lp)"

section \<open>GPT model: the constructor (src/lib/gpt.ts)\<close>

text \<open>
  \<open>gauss(mu, sigma)\<close>: the Box-Muller pair; the second sample is kept in \<open>_gaussNext\<close>.
\<close>

definition gauss :: "real \<Rightarrow> real \<Rightarrow> MersenneTwister \<Rightarrow> real \<times> MersenneTwister" where
  "gauss mu sigma s =
     (case gaussNext s of
        Some z \<Rightarrow> (mu + z * sigma, s\<lparr> gaussNext := None \<rparr>)
      | None \<Rightarrow>
          (let (u1, s) = random s;
               x2pi = u1 * 2 * pi;
               (u2, s) = random s;
               g2rad = sqrt (- 2 * ln (1 - u2));
               z = cos x2pi * g2rad
           in (mu + z * sigma, s\<lparr> gaussNext := Some (sin x2pi * g2rad) \<rparr>)))"

text \<open>\<open>32 - Math.clz32(n)\<close>: the number of binary digits of \<open>n\<close> (for \<open>n < 2^32\<close>).\<close>

function bit_length :: "nat \<Rightarrow> nat" where
  "bit_length n = (if n = 0 then 0 else Suc (bit_length (n div 2)))"
  by pat_completeness auto
termination
  by (relation "measure (\<lambda>n. n)") auto

declare bit_length.simps [simp del]

text \<open>
  \<open>shuffle(arr)\<close>. The rejection loop \<open>while (r > i) r = this.int32() >>> (32 - k)\<close> ends
  only when the generator delivers a small enough number: \<open>None\<close> is a loop that never
  ends.
\<close>

partial_function (option) shuffle_draw :: "nat \<Rightarrow> nat \<Rightarrow> MersenneTwister \<Rightarrow> (nat \<times> MersenneTwister) option" where
  "shuffle_draw k i s =
     (case int32 s of
        (y, s') \<Rightarrow> if unat (drop_bit (32 - k) y) > i then shuffle_draw k i s'
                   else Some (unat (drop_bit (32 - k) y), s'))"

fun shuffle_loop :: "nat \<Rightarrow> 'a list \<Rightarrow> MersenneTwister \<Rightarrow> ('a list \<times> MersenneTwister) option" where
  "shuffle_loop 0 arr s = Some (arr, s)"
| "shuffle_loop (Suc j) arr s =
     (let i = Suc j; k = bit_length (i + 1)
      in case shuffle_draw k i s of
           None \<Rightarrow> None
         | Some (r, s') \<Rightarrow>
             (let t = arr ! i;
                  arr = arr[i := arr ! r];
                  arr = arr[r := t]
              in shuffle_loop j arr s'))"

definition shuffle :: "'a list \<Rightarrow> MersenneTwister \<Rightarrow> ('a list \<times> MersenneTwister) option" where
  "shuffle arr s = shuffle_loop (length arr - 1) arr s"

text \<open>\<open>matrix(nout, nin, std)\<close>: the data of \<open>nout\<close> rows of \<open>nin\<close> Gaussian draws, row by row.\<close>

fun matrix_row :: "nat \<Rightarrow> real \<Rightarrow> MersenneTwister \<Rightarrow> real list \<times> MersenneTwister" where
  "matrix_row 0 std s = ([], s)"
| "matrix_row (Suc j) std s =
     (let (g, s) = gauss 0 std s;
          (row, s) = matrix_row j std s
      in (g # row, s))"

fun matrix_init :: "nat \<Rightarrow> nat \<Rightarrow> real \<Rightarrow> MersenneTwister \<Rightarrow> matrix \<times> MersenneTwister" where
  "matrix_init 0 nin std s = ([], s)"
| "matrix_init (Suc i) nin std s =
     (let (row, s) = matrix_row nin std s;
          (rows, s) = matrix_init i nin std s
      in (row # rows, s))"

definition DEFAULT_CONFIG :: GPTConfig where
  "DEFAULT_CONFIG = \<lparr> nEmbd = 16, nHead = 4, nLayer = 1, blockSize = 16, cfg_vocabSize = 0 \<rparr>"

text \<open>The loop \<open>for (let i = 0; i < nLayer; i++)\<close> of the constructor, for the layers left.\<close>

fun init_layers :: "nat \<Rightarrow> nat \<Rightarrow> MersenneTwister \<Rightarrow> LayerParams list \<times> MersenneTwister" where
  "init_layers 0 n s = ([], s)"
| "init_layers (Suc i) n s =
     (let (wq, s) = matrix_init n n (8 / 100) s;
          (wk, s) = matrix_init n n (8 / 100) s;
          (wv, s) = matrix_init n n (8 / 100) s;
          (wo, s) = matrix_init n n (8 / 100) s;
          (fc1, s) = matrix_init (4 * n) n (8 / 100) s;
          (fc2, s) = matrix_init n (4 * n) (8 / 100) s;
          (rest, s) = init_layers i n s
      in (\<lparr> attn_wq = wq, attn_wk = wk, attn_wv = wv, attn_wo = wo, mlp_fc1 = fc1, mlp_fc2 = fc2 \<rparr>
            # rest, s))"

text \<open>
  The flat parameter list: the entries of \<open>stateDict\<close> in the order of its keys (\<open>wte\<close>,
  \<open>wpe\<close>, \<open>lm_head\<close>, then the matrices of each layer), row by row.
\<close>

definition params_of :: "StateDict \<Rightarrow> real list" where
  "params_of sd =
     concat (wte sd) @ concat (wpe sd) @ concat (lm_head sd)
     @ concat (map (\<lambda>lp. concat (attn_wq lp) @ concat (attn_wk lp) @ concat (attn_wv lp)
                          @ concat (attn_wo lp) @ concat (mlp_fc1 lp) @ concat (mlp_fc2 lp))
                   (layers sd))"

text \<open>
  The fields of a \<open>GPTModel\<close> object carry the prefix \<open>model_\<close>. \<open>NAMES\<close>, imported from a
  file that is not part of the sources, is a parameter of the constructor.
\<close>

record 'c GPTModel =
  model_config :: GPTConfig
  model_stateDict :: StateDict
  model_tokenizer :: "'c tokenizer"
  model_rng :: MersenneTwister
  model_docs :: "'c list list"
  model_m :: "real list"
  model_v :: "real list"
  model_step :: nat
  model_adam :: Adam

definition GPTModel_new :: "int \<Rightarrow> ('c::linorder) list list \<Rightarrow> 'c GPTModel option" where
  "GPTModel_new n NAMES =
     (case shuffle NAMES (MersenneTwister_new n) of
        None \<Rightarrow> None
      | Some (ds, s) \<Rightarrow>
          (let tk = createTokenizer ds;
               cfg = DEFAULT_CONFIG\<lparr> cfg_vocabSize := vocabSize tk \<rparr>;
               (w1, s) = matrix_init (cfg_vocabSize cfg) (nEmbd cfg) (8 / 100) s;
               (w2, s) = matrix_init (blockSize cfg) (nEmbd cfg) (8 / 100) s;
               (w3, s) = matrix_init (cfg_vocabSize cfg) (nEmbd cfg) (8 / 100) s;
               (ls, s) = init_layers (nLayer cfg) (nEmbd cfg) s;
               sd = \<lparr> wte = w1, wpe = w2, lm_head = w3, layers = ls \<rparr>
           in Some \<lparr> model_config = cfg, model_stateDict = sd, model_tokenizer = tk,
                     model_rng = s, model_docs = ds,
                     model_m = replicate (length (params_of sd)) 0,
                     model_v = replicate (length (params_of sd)) 0,
                     model_step = 0, model_adam = adam_default \<rparr>))"

text \<open>\<open>model.generate(temperature, maxLen)\<close>: the result and the model with the advanced PRNG.\<close>

definition GPTModel_generate ::
  "'c GPTModel \<Rightarrow> real \<Rightarrow> nat option \<Rightarrow> error + (nat option list \<times> AttentionData list) \<times> 'c GPTModel" where
  "GPTModel_generate mdl temperature maxLen =
     bind_err (generate (model_config mdl) (model_stateDict mdl) (BOS (model_tokenizer mdl))
                 (model_rng mdl) temperature maxLen)
       (\<lambda>(toks, att, s). Inr ((toks, att), mdl\<lparr> model_rng := s \<rparr>))"

section \<open>Specification predicates\<close>

text \<open>
  An attention record that holds exactly one weight row, over \<open>n\<close> key positions, whose
  entries lie in [0, 1] and sum to 1.
\<close>

definition row_ok :: "nat \<Rightarrow> AttentionData \<Rightarrow> bool" where
  "row_ok n a \<longleftrightarrow>
     (\<exists>row. weights a = [row] \<and> length row = n \<and> sum_list row = 1
            \<and> (\<forall>w\<in>set row. 0 \<le> w \<and> w \<le> 1))"

text \<open>A key/value cache that holds \<open>p\<close> positions in each of its \<open>n\<close> layers.\<close>

definition cache_ok :: "nat \<Rightarrow> nat \<Rightarrow> real list list list \<Rightarrow> bool" where
  "cache_ok n p cache \<longleftrightarrow> length cache = n \<and> (\<forall>c\<in>set cache. length c = p)"

text \<open>A smallest well-shaped model (one layer, one head, width 1, two tokens), for examples.\<close>

definition tiny_cfg :: GPTConfig where
  "tiny_cfg = \<lparr> nEmbd = 1, nHead = 1, nLayer = 1, blockSize = 2, cfg_vocabSize = 2 \<rparr>"

definition tiny_sd :: StateDict where
  "tiny_sd = \<lparr> wte = [[1], [2]], wpe = [[0], [1]], lm_head = [[1], [2]],
               layers = [\<lparr> attn_wq = [[1]], attn_wk = [[1]], attn_wv = [[1]], attn_wo = [[1]],
                          mlp_fc1 = [[1], [1], [1], [1]], mlp_fc2 = [[1, 1, 1, 1]] \<rparr>] \<rparr>"

subsection \<open>The draws of \<open>generate\<close>\<close>

text \<open>
  The draw of one iteration of the loop of \<open>generate\<close>, at position \<open>posId\<close> in the state
  \<open>(tokenId, keys, vals, rng)\<close>: the forward pass, the logits divided by the temperature,
  softmax, and the weighted draw from \<open>[0, ..., vocabSize - 1]\<close>. It returns the token
  drawn, the attention data, the caches and the PRNG.
\<close>

definition sample_token ::
  "GPTConfig \<Rightarrow> StateDict \<Rightarrow> real \<Rightarrow> nat
   \<Rightarrow> nat option \<times> real list list list \<times> real list list list \<times> MersenneTwister
   \<Rightarrow> error + nat option \<times> AttentionData list \<times> real list list list \<times> real list list list
         \<times> MersenneTwister" where
  "sample_token cfg sd temperature posId st =
     (case st of (tokenId, keys, vals, rng) \<Rightarrow>
        bind_err (forward cfg sd tokenId posId keys vals True) (\<lambda>(logits, attentionData, keys, vals).
        let scaledLogits = scale_logits temperature logits
        in bind_err (softmax scaledLogits) (\<lambda>probs.
           let tokenPool = [0..<cfg_vocabSize cfg];
               wts = probs;
               (r, rng) = choices tokenPool wts rng
           in bind_err r (\<lambda>tokenId. Inr (tokenId, attentionData, keys, vals, rng)))))"

text \<open>
  \<open>state_at cfg sd bos temperature rng posId\<close>: the state in which the iteration at
  \<open>posId\<close> is entered when the loop starts from the marker at position 0 with empty caches
  and every token drawn is fed to the next position.
\<close>

fun state_at ::
  "GPTConfig \<Rightarrow> StateDict \<Rightarrow> nat \<Rightarrow> real \<Rightarrow> MersenneTwister \<Rightarrow> nat
   \<Rightarrow> error + nat option \<times> real list list list \<times> real list list list \<times> MersenneTwister" where
  "state_at cfg sd bos temperature rng 0 =
     Inr (Some bos, replicate (nLayer cfg) [], replicate (nLayer cfg) [], rng)"
| "state_at cfg sd bos temperature rng (Suc posId) =
     bind_err (state_at cfg sd bos temperature rng posId) (\<lambda>st.
     bind_err (sample_token cfg sd temperature posId st) (\<lambda>(tokenId, attentionData, keys, vals, rng).
     Inr (tokenId, keys, vals, rng)))"

subsection \<open>The expression graph\<close>

text \<open>
  The operand edges of a cell, as \<open>buildTopo\<close> and the loop of \<open>backward\<close> follow them: the
  first child when \<open>_nch >= 1\<close>, the second when \<open>_nch === 2\<close>, each with its local gradient.
\<close>

definition edges_of :: "Value \<Rightarrow> (nat \<times> real) list" where
  "edges_of n =
     (if nch n \<ge> 1 then (case c0 n of None \<Rightarrow> [] | Some c \<Rightarrow> [(c, lg0 n)]) else [])
     @ (if nch n = 2 then (case c1 n of None \<Rightarrow> [] | Some c \<Rightarrow> [(c, lg1 n)]) else [])"

definition kids_of :: "Value \<Rightarrow> nat list" where
  "kids_of n = map fst (edges_of n)"

text \<open>
  The heaps the operations build: a cell that has children refers to existing cells,
  created before it.
\<close>

definition wf_heap :: "Value list \<Rightarrow> bool" where
  "wf_heap vs \<longleftrightarrow>
     (\<forall>v<length vs. (nch (vs ! v) \<ge> 1 \<longrightarrow> c0 (vs ! v) \<noteq> None)
                    \<and> (nch (vs ! v) = 2 \<longrightarrow> c1 (vs ! v) \<noteq> None)
                    \<and> (\<forall>c\<in>set (kids_of (vs ! v)). c < v))"

text \<open>No cell carries a generation mark beyond the counter.\<close>

definition gens_ok :: "heap \<Rightarrow> bool" where
  "gens_ok h \<longleftrightarrow> (\<forall>v<length (cells h). gen (cells h ! v) \<le> gen_counter h)"

text \<open>\<open>reaches vs a b\<close>: the cell \<open>b\<close> is \<open>a\<close> or an operand, at any depth, of \<open>a\<close>.\<close>

inductive reaches :: "Value list \<Rightarrow> nat \<Rightarrow> nat \<Rightarrow> bool" for vs :: "Value list" where
  reaches_refl: "reaches vs a a"
| reaches_step: "c \<in> set (kids_of (vs ! a)) \<Longrightarrow> reaches vs c b \<Longrightarrow> reaches vs a b"

text \<open>
  The derivative of the value of cell \<open>k\<close> with respect to the value of cell \<open>n\<close>, by the
  chain rule over the recorded local gradients: 1 for \<open>k = n\<close>, and otherwise the sum over
  the operands \<open>c\<close> of \<open>k\<close> of the local gradient times the derivative of \<open>c\<close>. (The test
  \<open>c < k\<close> holds for every edge of a heap with \<open>wf_heap\<close>.)
\<close>

function deriv :: "Value list \<Rightarrow> nat \<Rightarrow> nat \<Rightarrow> real" where
  "deriv vs n k =
     (if k = n then 1
      else sum_list (map (\<lambda>e. if fst e < k then snd e * deriv vs n (fst e) else 0)
                         (edges_of (vs ! k))))"
  by pat_completeness auto
termination
  by (relation "measure (\<lambda>(vs, n, k). k)") auto

declare deriv.simps [simp del]

text \<open>Two heaps with the same cells up to the generation marks.\<close>

definition same_graph :: "Value list \<Rightarrow> Value list \<Rightarrow> bool" where
  "same_graph vs0 vs \<longleftrightarrow>
     length vs = length vs0 \<and> (\<forall>i<length vs0. vs ! i = (vs0 ! i)\<lparr> gen := gen (vs ! i) \<rparr>)"

text \<open>
  A processing order of cells in which no cell occurs twice and the operands of every
  cell come later: the order of the loop of \<open>backward\<close> over \<open>topo\<close>.
\<close>

fun topo_ok :: "Value list \<Rightarrow> nat list \<Rightarrow> bool" where
  "topo_ok vs [] = True"
| "topo_ok vs (v # rest) \<longleftrightarrow>
     v \<notin> set rest \<and> set (kids_of (vs ! v)) \<subseteq> set rest \<and> topo_ok vs rest"

text \<open>Two heaps with the same cells up to the generation marks and the gradients.\<close>

definition same_shape :: "Value list \<Rightarrow> Value list \<Rightarrow> bool" where
  "same_shape vs0 vs \<longleftrightarrow>
     length vs = length vs0
     \<and> (\<forall>i<length vs0. vs ! i = (vs0 ! i)\<lparr> grad := grad (vs ! i), gen := gen (vs ! i) \<rparr>)"

subsection \<open>The function an expression graph computes\<close>

text \<open>
  The operation that created a cell: a leaf (\<open>new Value(d)\<close>) or one of the primitive
  operations, with its numeric argument. (\<open>sub\<close> and \<open>div\<close> create a \<open>neg\<close> or \<open>pow\<close> cell and
  an \<open>add\<close> or \<open>mul\<close> cell.) The cells do not store it; a list of operations, one per
  cell, describes how a heap was built.
\<close>

datatype vop = OLeaf | OAddV | OAddN real | OMulV | OMulN real | OPow real | OLog | OExp | ORelu | ONeg

text \<open>
  \<open>created_by p vs k\<close>: cell \<open>k\<close> is, up to its gradient and generation mark, the cell
  that the operation \<open>p\<close> appends to the heap of the cells before it (for \<open>pow\<close> and \<open>log\<close>:
  where they return one).
\<close>

definition created_by :: "vop \<Rightarrow> Value list \<Rightarrow> nat \<Rightarrow> bool" where
  "created_by p vs k \<longleftrightarrow>
     (let h = \<lparr> cells = take k vs, gen_counter = 0 \<rparr>;
          cell = (vs ! k)\<lparr> grad := 0, gen := 0 \<rparr>
      in case p of
           OLeaf \<Rightarrow> cell = Value_new (data (vs ! k)) [] []
         | OAddV \<Rightarrow> (\<exists>a<k. \<exists>b<k. cell = cells (fst (add h a (Val b))) ! k)
         | OAddN n \<Rightarrow> (\<exists>a<k. cell = cells (fst (add h a (Num n))) ! k)
         | OMulV \<Rightarrow> (\<exists>a<k. \<exists>b<k. cell = cells (fst (mul h a (Val b))) ! k)
         | OMulN n \<Rightarrow> (\<exists>a<k. cell = cells (fst (mul h a (Num n))) ! k)
         | OPow e \<Rightarrow> (\<exists>a<k. case pow h a e of None \<Rightarrow> False | Some r \<Rightarrow> cell = cells (fst r) ! k)
         | OLog \<Rightarrow> (\<exists>a<k. case log_v h a of None \<Rightarrow> False | Some r \<Rightarrow> cell = cells (fst r) ! k)
         | OExp \<Rightarrow> (\<exists>a<k. cell = cells (fst (exp_v h a)) ! k)
         | ORelu \<Rightarrow> (\<exists>a<k. cell = cells (fst (relu h a)) ! k)
         | ONeg \<Rightarrow> (\<exists>a<k. cell = cells (fst (neg h a)) ! k))"

definition built_by :: "vop list \<Rightarrow> Value list \<Rightarrow> bool" where
  "built_by ps vs \<longleftrightarrow> length ps = length vs \<and> (\<forall>k<length vs. created_by (ps ! k) vs k)"

text \<open>The value an operation computes from the values of its operands.\<close>

fun op_apply :: "vop \<Rightarrow> real list \<Rightarrow> real" where
  "op_apply OAddV [x, y] = x + y"
| "op_apply (OAddN n) [x] = x + n"
| "op_apply OMulV [x, y] = x * y"
| "op_apply (OMulN n) [x] = x * n"
| "op_apply (OPow e) [x] = js_pow x e"
| "op_apply OLog [x] = ln x"
| "op_apply OExp [x] = exp x"
| "op_apply ORelu [x] = max 0 x"
| "op_apply ONeg [x] = - x"
| "op_apply p xs = 0"

text \<open>
  \<open>eval_at ps vs n x k\<close>: the value of cell \<open>k\<close> when the value of cell \<open>n\<close> is \<open>x\<close> and
  every other cell is computed from its operands as before (leaves keep their data). As
  a function of \<open>x\<close> it is the value of \<open>k\<close> in terms of the value of \<open>n\<close>.
\<close>

function eval_at :: "vop list \<Rightarrow> Value list \<Rightarrow> nat \<Rightarrow> real \<Rightarrow> nat \<Rightarrow> real" where
  "eval_at ps vs n x k =
     (if k = n then x
      else if ps ! k = OLeaf then data (vs ! k)
      else op_apply (ps ! k)
             (map (\<lambda>c. if c < k then eval_at ps vs n x c else data (vs ! c)) (kids_of (vs ! k))))"
  by pat_completeness auto
termination
  by (relation "measure (\<lambda>(ps, vs, n, x, k). k)") auto

declare eval_at.simps [simp del]

text \<open>
  The operations are applied where they are differentiable and the local gradient that
  the source records is a number: \<open>log\<close> to a positive number, \<open>relu\<close> away from 0, \<open>pow\<close>
  with an integral exponent to a non-zero number (or to any number when the exponent is
  at least 1) and with any other exponent to a positive number.
\<close>

definition smooth_at :: "vop \<Rightarrow> real \<Rightarrow> bool" where
  "smooth_at p x \<longleftrightarrow>
     (case p of
        OLog \<Rightarrow> 0 < x
      | ORelu \<Rightarrow> x \<noteq> 0
      | OPow e \<Rightarrow> (if e \<in> \<int> then 1 \<le> e \<or> x \<noteq> 0 else 0 < x)
      | _ \<Rightarrow> True)"

definition smooth :: "vop list \<Rightarrow> Value list \<Rightarrow> bool" where
  "smooth ps vs \<longleftrightarrow>
     (\<forall>k<length vs. \<forall>c\<in>set (kids_of (vs ! k)). smooth_at (ps ! k) (data (vs ! c)))"

text \<open>
  The derivative of a one-operand operation with respect to its operand, that is, the
  local gradient the operation records.
\<close>

fun local_grad :: "vop \<Rightarrow> real \<Rightarrow> real" where
  "local_grad (OAddN n) y = 1"
| "local_grad (OMulN n) y = n"
| "local_grad (OPow e) y = e * js_pow y (e - 1)"
| "local_grad OLog y = 1 / y"
| "local_grad OExp y = exp y"
| "local_grad ORelu y = (if y > 0 then 1 else 0)"
| "local_grad ONeg y = - 1"
| "local_grad p y = 0"

definition unary :: "vop \<Rightarrow> bool" where
  "unary p \<longleftrightarrow> p \<noteq> OLeaf \<and> p \<noteq> OAddV \<and> p \<noteq> OMulV"

text \<open>
  An example: \<open>x = new Value(2)\<close>, \<open>y = x.mul(x)\<close>, \<open>y.backward()\<close>, the gradients reset to 0
  by the caller, then \<open>z = y.add(x)\<close>. The cells of \<open>x\<close> and \<open>y\<close> carry the mark of the
  first pass; \<open>x\<close> is shared by \<open>y\<close> (twice) and \<open>z\<close>.
\<close>

definition zero_grads :: "heap \<Rightarrow> heap" where
  "zero_grads h = h\<lparr> cells := map (\<lambda>v. v\<lparr> grad := 0 \<rparr>) (cells h) \<rparr>"

definition example_heap :: heap where
  "example_heap =
     \<lparr> cells = [\<lparr> data = 2, grad = 0, c0 = None, c1 = None, lg0 = 0, lg1 = 0, nch = 0, gen = 1 \<rparr>,
                \<lparr> data = 4, grad = 0, c0 = Some 0, c1 = Some 0, lg0 = 2, lg1 = 2, nch = 2, gen = 1 \<rparr>,
                \<lparr> data = 6, grad = 0, c0 = Some 1, c1 = Some 0, lg0 = 1, lg1 = 1, nch = 2, gen = 0 \<rparr>],
       gen_counter = 1 \<rparr>"

definition example_ops :: "vop list" where
  "example_ops = [OLeaf, OMulV, OAddV]"

section \<open>Tokenizer: properties\<close>

lemma set_foldl_set_add: "set (foldl set_add cs doc) = set cs \<union> set doc"
  by (induction doc arbitrary: cs) (auto simp: set_add_def)

lemma distinct_foldl_set_add: "distinct cs \<Longrightarrow> distinct (foldl set_add cs doc)"
  by (induction doc arbitrary: cs) (auto simp: set_add_def)

lemma distinct_charSet:
  "distinct cs \<Longrightarrow> distinct (foldl (\<lambda>cs doc. foldl set_add cs doc) cs docs)"
  by (induction docs arbitrary: cs) (auto simp: distinct_foldl_set_add)

lemma set_charSet:
  "set (foldl (\<lambda>cs doc. foldl set_add cs doc) cs docs) = set cs \<union> set (concat docs)"
  by (induction docs arbitrary: cs) (auto simp: set_foldl_set_add)

lemma distinct_uchars: "distinct (uchars (createTokenizer docs))"
  by (simp add: createTokenizer_def Let_def distinct_charSet)

lemma set_uchars: "set (uchars (createTokenizer docs)) = set (concat docs)"
  by (simp add: createTokenizer_def Let_def set_charSet)

lemma sorted_uchars: "sorted (uchars (createTokenizer docs))"
  by (simp add: createTokenizer_def Let_def)

lemma new_Map_snoc: "new_Map (es @ [(k, v)]) = (new_Map es)(k \<mapsto> v)"
  by (simp add: new_Map_def)

lemma new_Map_index:
  "distinct xs \<Longrightarrow> i < length xs \<Longrightarrow> new_Map (zip xs [0..<length xs]) (xs ! i) = Some i"
proof (induction xs arbitrary: i rule: rev_induct)
  case Nil
  then show ?case by simp
next
  case (snoc x xs)
  have z: "zip (xs @ [x]) [0..<length (xs @ [x])] = zip xs [0..<length xs] @ [(x, length xs)]"
    by simp
  show ?case
  proof (cases "i = length xs")
    case True
    then show ?thesis unfolding z new_Map_snoc by simp
  next
    case False
    with snoc.prems have i: "i < length xs" by simp
    with snoc.prems have "xs ! i \<noteq> x" by (auto simp: nth_append)
    moreover from snoc.prems have "distinct xs" by simp
    ultimately show ?thesis
      unfolding z new_Map_snoc using snoc.IH [of i] i by (simp add: nth_append)
  qed
qed

lemma new_Map_dom: "dom (new_Map (zip xs [0..<length xs])) = set xs"
proof (induction xs rule: rev_induct)
  case Nil
  then show ?case by (simp add: new_Map_def)
next
  case (snoc x xs)
  have z: "zip (xs @ [x]) [0..<length (xs @ [x])] = zip xs [0..<length xs] @ [(x, length xs)]"
    by simp
  have "new_Map (zip (xs @ [x]) [0..<length (xs @ [x])])
          = (new_Map (zip xs [0..<length xs]))(x \<mapsto> length xs)"
    by (simp only: z new_Map_snoc)
  then show ?case by (simp only: dom_fun_upd snoc.IH) simp
qed

lemma charToId_in_vocab:
  assumes "ch \<in> set (uchars (createTokenizer docs))"
  shows "\<exists>i. charToId (createTokenizer docs) ch = Some i \<and> i < BOS (createTokenizer docs)
             \<and> uchars (createTokenizer docs) ! i = ch"
proof -
  let ?u = "sort (foldl (\<lambda>cs doc. foldl set_add cs doc) [] docs)"
  have u: "uchars (createTokenizer docs) = ?u" by (simp add: createTokenizer_def Let_def)
  from assms have "ch \<in> set ?u" unfolding u .
  then obtain i where i: "i < length ?u" "?u ! i = ch"
    unfolding in_set_conv_nth by blast
  have "distinct ?u" using distinct_uchars [of docs] unfolding u .
  from new_Map_index [OF this i(1)] i show ?thesis
    by (auto simp: createTokenizer_def Let_def)
qed

lemma charToId_not_in_vocab:
  "ch \<notin> set (uchars (createTokenizer docs)) \<Longrightarrow> charToId (createTokenizer docs) ch = None"
  using new_Map_dom [of "sort (foldl (\<lambda>cs doc. foldl set_add cs doc) [] docs)"]
  by (auto simp: createTokenizer_def Let_def)

lemma decode_step:
  assumes "charToId tk ch = Some i" "i < BOS tk" "BOS tk = length (uchars tk)" "uchars tk ! i = ch"
  shows "join_chars (map (array_get (uchars tk)) (filter (\<lambda>id. id \<noteq> Some (BOS tk)) (charToId tk ch # ids)))
         = ch # join_chars (map (array_get (uchars tk)) (filter (\<lambda>id. id \<noteq> Some (BOS tk)) ids))"
  using assms by (simp add: join_chars_def array_get_def)

lemma decode_map_charToId:
  assumes "set s \<subseteq> set (uchars (createTokenizer docs))"
  shows "join_chars (map (array_get (uchars (createTokenizer docs)))
           (filter (\<lambda>id. id \<noteq> Some (BOS (createTokenizer docs)))
              (map (charToId (createTokenizer docs)) s @ [Some (BOS (createTokenizer docs))]))) = s"
  using assms
proof (induction s)
  case Nil
  then show ?case by (simp add: join_chars_def)
next
  case (Cons ch s)
  let ?tk = "createTokenizer docs"
  from Cons.prems obtain i where i: "charToId ?tk ch = Some i" "i < BOS ?tk" "uchars ?tk ! i = ch"
    using charToId_in_vocab [of ch docs] by auto
  have b: "BOS ?tk = length (uchars ?tk)" by (simp add: createTokenizer_def Let_def)
  have "join_chars (map (array_get (uchars ?tk)) (filter (\<lambda>id. id \<noteq> Some (BOS ?tk))
           (charToId ?tk ch # (map (charToId ?tk) s @ [Some (BOS ?tk)]))))
        = ch # join_chars (map (array_get (uchars ?tk)) (filter (\<lambda>id. id \<noteq> Some (BOS ?tk))
           (map (charToId ?tk) s @ [Some (BOS ?tk)])))"
    by (rule decode_step [OF i(1) i(2) b i(3)])
  with Cons show ?case by simp
qed

text \<open>
  C3. For every string \<open>s\<close> over the tokenizer's vocabulary, \<open>encode\<close> returns the marker,
  one id per character of \<open>s\<close> (the index of that character in \<open>uchars\<close>, below the
  marker), and the marker again; \<open>decode\<close> of that sequence is \<open>s\<close>.
\<close>

theorem decode_encode_roundtrip:
  fixes docs :: "('c::linorder) list list"
  assumes "set s \<subseteq> set (uchars (createTokenizer docs))"
  shows "\<exists>ids. encode (createTokenizer docs) s
                 = Inr ([Some (BOS (createTokenizer docs))] @ map Some ids
                        @ [Some (BOS (createTokenizer docs))])
             \<and> length ids = length s
             \<and> (\<forall>j<length s. ids ! j < BOS (createTokenizer docs)
                            \<and> uchars (createTokenizer docs) ! (ids ! j) = s ! j)
             \<and> decode (createTokenizer docs)
                  ([Some (BOS (createTokenizer docs))] @ map Some ids
                   @ [Some (BOS (createTokenizer docs))]) = s"
proof -
  let ?tk = "createTokenizer docs"
  let ?ids = "map (\<lambda>ch. the (charToId ?tk ch)) s"
  have each: "\<forall>ch\<in>set s. \<exists>i. charToId ?tk ch = Some i \<and> i < BOS ?tk \<and> uchars ?tk ! i = ch"
    using assms charToId_in_vocab [of _ docs] by blast
  then have m: "map (charToId ?tk) s = map Some ?ids"
    by (auto simp: map_eq_conv)
  have e: "encode ?tk s = Inr ([Some (BOS ?tk)] @ map Some ?ids @ [Some (BOS ?tk)])"
    by (simp add: encode_def m)
  have n: "\<forall>j<length s. ?ids ! j < BOS ?tk \<and> uchars ?tk ! (?ids ! j) = s ! j"
  proof (intro allI impI)
    fix j assume "j < length s"
    then have "s ! j \<in> set s" by simp
    with each obtain i where "charToId ?tk (s ! j) = Some i" "i < BOS ?tk" "uchars ?tk ! i = s ! j"
      by blast
    with \<open>j < length s\<close> show "?ids ! j < BOS ?tk \<and> uchars ?tk ! (?ids ! j) = s ! j" by simp
  qed
  have d: "decode ?tk ([Some (BOS ?tk)] @ map Some ?ids @ [Some (BOS ?tk)]) = s"
    unfolding m [symmetric] decode_def using decode_map_charToId [OF assms] by simp
  from e n d show ?thesis by (intro exI [of _ ?ids]) simp
qed

theorem decode_encode_roundtrip_witness:
  "set ''ba'' \<subseteq> set (uchars (createTokenizer [''ab'', ''cab'']))
   \<and> encode (createTokenizer [''ab'', ''cab'']) ''ba'' = Inr [Some 3, Some 1, Some 0, Some 3]
   \<and> decode (createTokenizer [''ab'', ''cab'']) [Some 3, Some 1, Some 0, Some 3] = ''ba''"
proof -
  have u: "uchars (createTokenizer [''ab'', ''cab'']) = ''abc''"
    by (simp add: createTokenizer_def set_add_def)
  have h: "set ''ba'' \<subseteq> set (uchars (createTokenizer [''ab'', ''cab'']))"
    unfolding u by simp
  have b: "BOS (createTokenizer [''ab'', ''cab'']) = 3"
    by (simp add: createTokenizer_def set_add_def)
  from decode_encode_roundtrip [OF h] obtain ids where
    e: "encode (createTokenizer [''ab'', ''cab'']) ''ba'' = Inr ([Some 3] @ map Some ids @ [Some 3])"
    and d: "decode (createTokenizer [''ab'', ''cab'']) ([Some 3] @ map Some ids @ [Some 3]) = ''ba''"
    unfolding b by blast
  have "encode (createTokenizer [''ab'', ''cab'']) ''ba'' = Inr [Some 3, Some 1, Some 0, Some 3]"
    by (simp add: encode_def createTokenizer_def set_add_def new_Map_def)
  with e have "[Some 3] @ map Some ids @ [Some 3] = [Some 3, Some 1, Some 0, Some (3::nat)]"
    by simp
  with e d h show ?thesis by simp
qed

text \<open>
  C5 as stated fails: \<open>encode\<close> has no failing branch. For a character outside the
  vocabulary \<open>charToId.get\<close> returns \<open>undefined\<close>, which is stored in the result.
\<close>

theorem encode_unknown_char_counterexample:
  "CHR ''c'' \<notin> set (uchars (createTokenizer [''ab'']))
   \<and> encode (createTokenizer [''ab'']) ''c'' = Inr [Some 2, None, Some 2]"
  by (simp add: encode_def createTokenizer_def set_add_def new_Map_def)

text \<open>
  C5, amended. For every input string, \<open>encode\<close> throws nothing and returns the marker, one
  entry per character and the marker; the entry of a character that is not in the trained
  vocabulary is \<open>undefined\<close> (no id).
\<close>

theorem encode_unknown_char_undefined:
  fixes docs :: "('c::linorder) list list"
  shows "\<exists>ids. encode (createTokenizer docs) s
                 = Inr ([Some (BOS (createTokenizer docs))] @ ids
                        @ [Some (BOS (createTokenizer docs))])
             \<and> length ids = length s
             \<and> (\<forall>j<length s. s ! j \<notin> set (uchars (createTokenizer docs)) \<longrightarrow> ids ! j = None)"
  by (intro exI [of _ "map (charToId (createTokenizer docs)) s"])
     (simp add: encode_def charToId_not_in_vocab)

theorem encode_unknown_char_undefined_witness:
  "\<exists>ids. encode (createTokenizer [''ab'']) ''ac'' = Inr ([Some 2] @ ids @ [Some 2])
         \<and> length ids = 2 \<and> ids ! 1 = None"
proof -
  have u: "uchars (createTokenizer [''ab'']) = ''ab''" "BOS (createTokenizer [''ab'']) = 2"
    by (simp_all add: createTokenizer_def set_add_def)
  from encode_unknown_char_undefined [of "[''ab'']" "''ac''"] show ?thesis
    unfolding u by auto
qed

section \<open>Softmax: properties\<close>

lemma bind_err_simps [simp]:
  "bind_err (Inl e) f = Inl e" "bind_err (Inr v) f = f v"
  by (simp_all add: bind_err_def)

lemma bind_err_Inr:
  "bind_err m f = Inr r \<longleftrightarrow> (\<exists>v. m = Inr v \<and> f v = Inr r)"
  by (cases m) simp_all

lemma map_err_Inr:
  "(\<And>x. x \<in> set xs \<Longrightarrow> f x = Inr (g x)) \<Longrightarrow> map_err f xs = Inr (map g xs)"
  by (induction xs) simp_all

lemma map_err_length: "map_err f xs = Inr ys \<Longrightarrow> length ys = length xs"
  by (induction xs arbitrary: ys) (auto simp: bind_err_Inr)

lemma foldl_add_sum_list: "foldl (+) (v::real) vs = v + sum_list vs"
  by (induction vs arbitrary: v) simp_all

lemma vsum_nonempty: "vals \<noteq> [] \<Longrightarrow> vsum vals = Inr (sum_list vals)"
  by (cases vals) (simp_all add: vsum_def foldl_add_sum_list)

lemma Math_max_mem: "xs \<noteq> [] \<Longrightarrow> Math_max xs \<in> set xs"
  by (simp add: Math_max_def)

lemma Math_max_ge: "x \<in> set xs \<Longrightarrow> x \<le> Math_max xs"
  by (auto simp: Math_max_def)

lemma js_pow_minus_one: "js_pow x (- 1) = inverse x"
proof -
  have "\<lfloor>- 1 :: real\<rfloor> = - 1" by linarith
  then show ?thesis by (simp add: js_pow_def power_int_def)
qed

lemma softmax_exps_props:
  assumes "logits \<noteq> []"
  shows "softmax_exps logits \<noteq> []"
    and "length (softmax_exps logits) = length logits"
    and "\<forall>e\<in>set (softmax_exps logits). 0 < e \<and> e \<le> 1"
    and "1 \<in> set (softmax_exps logits)"
proof -
  show "softmax_exps logits \<noteq> []" "length (softmax_exps logits) = length logits"
    using assms by (simp_all add: softmax_exps_def)
  show "\<forall>e\<in>set (softmax_exps logits). 0 < e \<and> e \<le> 1"
    using Math_max_ge [of _ logits] by (auto simp: softmax_exps_def)
  have "exp (Math_max logits + - Math_max logits) \<in> (\<lambda>v. exp (v + - Math_max logits)) ` set logits"
    using Math_max_mem [OF assms] by (rule imageI)
  then show "1 \<in> set (softmax_exps logits)" by (simp add: softmax_exps_def)
qed

lemma softmax_total_ge_1:
  assumes "logits \<noteq> []"
  shows "1 \<le> sum_list (softmax_exps logits)"
proof -
  have "\<forall>e\<in>set (softmax_exps logits). 0 \<le> e"
    using softmax_exps_props(3) [OF assms] by force
  from member_le_sum_list [of 1 "softmax_exps logits"] this softmax_exps_props(4) [OF assms]
  show ?thesis by (metis member_le_sum_list)
qed

lemma softmax_nonempty:
  assumes "logits \<noteq> []"
  shows "softmax logits
         = Inr (map (\<lambda>e. e * inverse (sum_list (softmax_exps logits))) (softmax_exps logits))"
  by (simp add: softmax_def Let_def vsum_nonempty [OF softmax_exps_props(1) [OF assms]]
        js_pow_minus_one)

lemma softmax_length:
  assumes "softmax logits = Inr ws"
  shows "length ws = length logits"
proof (cases "logits = []")
  case True
  with assms show ?thesis by (simp add: softmax_def softmax_exps_def vsum_def)
next
  case False
  with assms softmax_nonempty [OF False] show ?thesis
    by (auto simp: softmax_exps_props(2) [OF False])
qed

lemma softmax_sum_1:
  assumes "logits \<noteq> []" "softmax logits = Inr ws"
  shows "sum_list ws = 1"
proof -
  let ?t = "sum_list (softmax_exps logits)"
  have t: "?t \<noteq> 0" using softmax_total_ge_1 [OF assms(1)] by simp
  have "ws = map (\<lambda>e. e * inverse ?t) (softmax_exps logits)"
    using assms by (simp add: softmax_nonempty)
  then have "sum_list ws = ?t * inverse ?t"
    by (simp add: sum_list_mult_const)
  with t show ?thesis by simp
qed

lemma softmax_range:
  assumes "logits \<noteq> []" "softmax logits = Inr ws"
  shows "\<forall>w\<in>set ws. 0 \<le> w \<and> w \<le> 1"
proof -
  let ?e = "softmax_exps logits"
  let ?t = "sum_list ?e"
  have t: "1 \<le> ?t" by (rule softmax_total_ge_1 [OF assms(1)])
  have "\<forall>e\<in>set ?e. 0 \<le> e * inverse ?t \<and> e * inverse ?t \<le> 1"
  proof
    fix e assume e: "e \<in> set ?e"
    with softmax_exps_props(3) [OF assms(1)] have e0: "0 < e" by blast
    have "\<forall>y\<in>set ?e. 0 \<le> y" using softmax_exps_props(3) [OF assms(1)] by force
    with e have "e \<le> ?t" by (metis member_le_sum_list)
    with t e0 show "0 \<le> e * inverse ?t \<and> e * inverse ?t \<le> 1"
      by (simp add: field_simps)
  qed
  moreover have "ws = map (\<lambda>e. e * inverse ?t) ?e"
    using assms softmax_nonempty [OF assms(1)] by simp
  ultimately show ?thesis by auto
qed

text \<open>
  C10. For every non-empty logit vector the denominator of \<open>softmax\<close> (the \<open>vsum\<close> of the
  max-subtracted exponentials) is at least 1, so \<open>softmax\<close> returns, with one weight per
  logit, each in [0, 1]. (Every real is finite: the hypothesis of finite entries is the
  type of the model.)
\<close>

theorem softmax_denominator_ge_1:
  assumes "logits \<noteq> []"
  shows "\<exists>total ws. vsum (softmax_exps logits) = Inr total \<and> 1 \<le> total
            \<and> softmax logits = Inr ws \<and> length ws = length logits
            \<and> (\<forall>w\<in>set ws. 0 \<le> w \<and> w \<le> 1)"
proof -
  let ?e = "softmax_exps logits"
  let ?t = "sum_list ?e"
  let ?ws = "map (\<lambda>e. e * inverse ?t) ?e"
  have v: "vsum ?e = Inr ?t" by (rule vsum_nonempty [OF softmax_exps_props(1) [OF assms]])
  have t: "1 \<le> ?t" by (rule softmax_total_ge_1 [OF assms])
  have s: "softmax logits = Inr ?ws" by (rule softmax_nonempty [OF assms])
  have l: "length ?ws = length logits" by (simp add: softmax_exps_props(2) [OF assms])
  have w: "\<forall>w\<in>set ?ws. 0 \<le> w \<and> w \<le> 1" by (rule softmax_range [OF assms s])
  from v t s l w show ?thesis by blast
qed

theorem softmax_denominator_ge_1_witness:
  "[0, 1] \<noteq> ([] :: real list)
   \<and> (\<exists>total ws. vsum (softmax_exps [0, 1]) = Inr total \<and> 1 \<le> total
         \<and> softmax [0, 1] = Inr ws \<and> length ws = length [0, 1 :: real] \<and> (\<forall>w\<in>set ws. 0 \<le> w \<and> w \<le> 1))"
  using softmax_denominator_ge_1 [of "[0, 1]"] by blast

section \<open>PRNG: properties\<close>

lemma length_cum_from: "length (cum_from acc ws) = length ws"
  by (induction ws arbitrary: acc) simp_all

lemma length_cum_weights [simp]: "length (cum_weights ws) = length ws"
  by (cases ws) (simp_all add: cum_weights_def length_cum_from)

lemma cum_from_zero: "\<forall>w\<in>set ws. w = 0 \<Longrightarrow> \<forall>c\<in>set (cum_from 0 ws). c = 0"
  by (induction ws) simp_all

lemma cum_weights_zero: "\<forall>w\<in>set ws. w = 0 \<Longrightarrow> \<forall>c\<in>set (cum_weights ws). c = 0"
  using cum_from_zero by (cases ws) (auto simp: cum_weights_def)

declare choices_search.simps [simp del]

lemma choices_search_bounds:
  "lo \<le> hi \<Longrightarrow> lo \<le> choices_search cum x lo hi \<and> choices_search cum x lo hi \<le> hi"
proof (induction cum x lo hi rule: choices_search.induct)
  case (1 cum x lo hi)
  show ?case
  proof (cases "lo < hi")
    case True
    then have m: "lo \<le> (lo + hi) div 2" "(lo + hi) div 2 + 1 \<le> hi" by auto
    show ?thesis
    proof (cases "x < cum ! ((lo + hi) div 2)")
      case x: True
      from "1.IH"(1) [OF True refl x m(1)] True x m show ?thesis
        by (subst (1 2) choices_search.simps) (simp add: Let_def)
    next
      case x: False
      from "1.IH"(2) [OF True refl x m(2)] True x m show ?thesis
        by (subst (1 2) choices_search.simps) (simp add: Let_def)
    qed
  next
    case False
    with "1.prems" show ?thesis by (subst (1 2) choices_search.simps) simp
  qed
qed

lemma choices_search_never_less:
  "lo \<le> hi \<Longrightarrow> \<forall>m<hi. \<not> x < cum ! m \<Longrightarrow> choices_search cum x lo hi = hi"
proof (induction cum x lo hi rule: choices_search.induct)
  case (1 cum x lo hi)
  show ?case
  proof (cases "lo < hi")
    case True
    then have m: "(lo + hi) div 2 < hi" "(lo + hi) div 2 + 1 \<le> hi" by auto
    with "1.prems" have x: "\<not> x < cum ! ((lo + hi) div 2)" by blast
    from "1.IH"(2) [OF True refl x m(2) "1.prems"(2)] True x show ?thesis
      by (subst choices_search.simps) (simp add: Let_def)
  next
    case False
    with "1.prems" show ?thesis by (subst choices_search.simps) simp
  qed
qed

lemma choices_all_zero:
  assumes "\<forall>w\<in>set wts. w = 0"
  shows "fst (choices population wts s)
         = Inr (array_get population (Some (length wts - 1)))"
proof -
  let ?cum = "cum_weights wts"
  obtain r s' where r: "random s = (r, s')" by (cases "random s")
  have z: "\<forall>c\<in>set ?cum. c = 0" by (rule cum_weights_zero [OF assms])
  have "choices_search ?cum (r * ?cum ! (length ?cum - 1)) 0 (length ?cum - 1) = length ?cum - 1"
  proof (cases "wts = []")
    case True
    then show ?thesis by (subst choices_search.simps) simp
  next
    case False
    then have "?cum ! (length ?cum - 1) \<in> set ?cum" by (intro nth_mem) simp
    with z have "?cum ! (length ?cum - 1) = 0" by blast
    then have x: "r * ?cum ! (length ?cum - 1) = 0" by simp
    have "\<forall>m<length ?cum - 1. \<not> (0::real) < ?cum ! m"
    proof (intro allI impI)
      fix m assume "m < length ?cum - 1"
      then have "?cum ! m \<in> set ?cum" by (intro nth_mem) simp
      with z have "?cum ! m = 0" by blast
      then show "\<not> (0::real) < ?cum ! m" by simp
    qed
    then show ?thesis unfolding x by (intro choices_search_never_less) simp_all
  qed
  then show ?thesis by (simp add: choices_def Let_def r)
qed

text \<open>
  C4 as stated fails: on the all-zero weight vector \<open>choices\<close> throws nothing and returns
  the last element of the population.
\<close>

theorem choices_zero_weights_counterexample:
  "sum_list [0, 0, 0 :: real] = 0
   \<and> fst (choices [0, 1, 2 :: nat] [0, 0, 0] (MersenneTwister_new 42)) = Inr (Some 2)"
  using choices_all_zero [of "[0, 0, 0]" "[0, 1, 2 :: nat]" "MersenneTwister_new 42"]
  by (simp add: array_get_def)

text \<open>
  C4, amended. For every weight vector whose entries are all zero, \<open>choices\<close> raises no
  error: it returns the population element at the last index of the weight vector
  (the last element of a population of the same, non-zero length).
\<close>

theorem choices_zero_weights_last:
  assumes "\<forall>w\<in>set wts. w = 0" and "wts \<noteq> []" and "length population = length wts"
  shows "fst (choices population wts s) = Inr (Some (last population))"
proof -
  from assms(2,3) have "population \<noteq> []" by auto
  with assms(2,3) have "array_get population (Some (length wts - 1)) = Some (last population)"
    by (simp add: array_get_def last_conv_nth)
  with choices_all_zero [OF assms(1), of population s] show ?thesis by simp
qed

theorem choices_zero_weights_last_witness:
  "set [0, 0 :: real] = {0} \<and> [0, 0 :: real] \<noteq> [] \<and> length ''ab'' = length [0, 0 :: real]
   \<and> fst (choices ''ab'' [0, 0] (MersenneTwister_new 7)) = Inr (Some (CHR ''b''))"
  using choices_zero_weights_last [of "[0, 0]" "''ab''" "MersenneTwister_new 7"] by simp

section \<open>Autograd engine: properties\<close>

lemma same_graph_refl: "same_graph vs vs"
  by (simp add: same_graph_def)

lemma same_graph_fields:
  assumes "same_graph vs0 vs" "i < length vs0"
  shows "nch (vs ! i) = nch (vs0 ! i)" "c0 (vs ! i) = c0 (vs0 ! i)" "c1 (vs ! i) = c1 (vs0 ! i)"
    "lg0 (vs ! i) = lg0 (vs0 ! i)" "lg1 (vs ! i) = lg1 (vs0 ! i)"
    "data (vs ! i) = data (vs0 ! i)" "grad (vs ! i) = grad (vs0 ! i)"
    "edges_of (vs ! i) = edges_of (vs0 ! i)" "kids_of (vs ! i) = kids_of (vs0 ! i)"
proof -
  from assms have e: "vs ! i = (vs0 ! i)\<lparr> gen := gen (vs ! i) \<rparr>" by (simp add: same_graph_def)
  show f: "nch (vs ! i) = nch (vs0 ! i)" "c0 (vs ! i) = c0 (vs0 ! i)" "c1 (vs ! i) = c1 (vs0 ! i)"
    "lg0 (vs ! i) = lg0 (vs0 ! i)" "lg1 (vs ! i) = lg1 (vs0 ! i)"
    "data (vs ! i) = data (vs0 ! i)" "grad (vs ! i) = grad (vs0 ! i)"
    by (subst e, simp)+
  show "edges_of (vs ! i) = edges_of (vs0 ! i)" by (simp add: edges_of_def f split: option.splits)
  then show "kids_of (vs ! i) = kids_of (vs0 ! i)" by (simp add: kids_of_def)
qed

lemma same_graph_mark:
  assumes "same_graph vs0 vs" "v < length vs0"
  shows "same_graph vs0 (vs[v := (vs ! v)\<lparr> gen := g \<rparr>])"
  unfolding same_graph_def
proof (intro conjI allI impI)
  show "length (vs[v := (vs ! v)\<lparr>gen := g\<rparr>]) = length vs0" using assms by (simp add: same_graph_def)
  fix i assume i: "i < length vs0"
  from assms have l: "length vs = length vs0" by (simp add: same_graph_def)
  from assms i have e: "vs ! i = (vs0 ! i)\<lparr> gen := gen (vs ! i) \<rparr>" by (simp add: same_graph_def)
  show "vs[v := (vs ! v)\<lparr>gen := g\<rparr>] ! i = (vs0 ! i)\<lparr>gen := gen (vs[v := (vs ! v)\<lparr>gen := g\<rparr>] ! i)\<rparr>"
  proof (cases "i = v")
    case True
    with i l have "vs[v := (vs ! v)\<lparr>gen := g\<rparr>] ! i = (vs ! i)\<lparr>gen := g\<rparr>" by simp
    also have "\<dots> = (vs0 ! i)\<lparr>gen := g\<rparr>" by (subst e) simp
    finally show ?thesis by simp
  next
    case False
    then show ?thesis using e by simp
  qed
qed

lemma reaches_unfold:
  "reaches vs a b \<longleftrightarrow> b = a \<or> (\<exists>c\<in>set (kids_of (vs ! a)). reaches vs c b)"
  by (auto elim: reaches.cases intro: reaches.intros)

lemma reaches_le:
  assumes "wf_heap vs" "reaches vs a b" "a < length vs"
  shows "b \<le> a"
  using assms(2,3)
proof (induction rule: reaches.induct)
  case (reaches_refl a)
  then show ?case by simp
next
  case (reaches_step c a b)
  with assms(1) have "c < a" by (auto simp: wf_heap_def)
  with reaches_step show ?case by simp
qed

lemma topo_ok_closed:
  "topo_ok vs xs \<Longrightarrow> x \<in> set xs \<Longrightarrow> set (kids_of (vs ! x)) \<subseteq> set xs"
  by (induction xs) auto

lemma topo_ok_distinct: "topo_ok vs xs \<Longrightarrow> distinct xs"
  by (induction xs) auto

lemma topo_ok_reaches:
  assumes "topo_ok vs xs" "reaches vs a b" "a \<in> set xs"
  shows "b \<in> set xs"
  using assms(2,3)
proof (induction rule: reaches.induct)
  case (reaches_refl a)
  then show ?case by simp
next
  case (reaches_step c a b)
  with topo_ok_closed [OF assms(1)] show ?case by blast
qed

lemma kids_split:
  "kids_of n = (if nch n \<ge> 1 then (case c0 n of None \<Rightarrow> [] | Some c \<Rightarrow> [c]) else [])
               @ (if nch n = 2 then (case c1 n of None \<Rightarrow> [] | Some c \<Rightarrow> [c]) else [])"
  by (simp add: kids_of_def edges_of_def split: option.splits)

lemma buildTopo_correct:
  assumes wf: "wf_heap vs0"
  shows "same_graph vs0 vs \<Longrightarrow> v < length vs0 \<Longrightarrow> v < depth
    \<Longrightarrow> (\<forall>i\<le>v. gen (vs ! i) = g \<longleftrightarrow> i \<in> set topo) \<Longrightarrow> topo_ok vs0 (rev topo)
    \<Longrightarrow> \<exists>vs' new. buildTopo depth g v (vs, topo) = Inr (vs', topo @ new)
          \<and> same_graph vs0 vs'
          \<and> (\<forall>i. i \<notin> set new \<longrightarrow> vs' ! i = vs ! i)
          \<and> (\<forall>i\<in>set new. i \<le> v \<and> gen (vs' ! i) = g)
          \<and> topo_ok vs0 (rev (topo @ new))
          \<and> set (topo @ new) = set topo \<union> {n. reaches vs0 v n}"
proof (induction depth arbitrary: v vs topo)
  case 0
  then show ?case by simp
next
  case (Suc depth)
  note sg = Suc.prems(1) and vl = Suc.prems(2) and I1 = Suc.prems(4) and I2 = Suc.prems(5)
  from sg have len: "length vs = length vs0" by (simp add: same_graph_def)
  show ?case
  proof (cases "gen (vs ! v) = g")
    case True
    with I1 have "v \<in> set topo" by auto
    then have "{n. reaches vs0 v n} \<subseteq> set topo"
      using topo_ok_reaches [OF I2] by auto
    then have "set (topo @ []) = set topo \<union> {n. reaches vs0 v n}" by auto
    moreover have "buildTopo (Suc depth) g v (vs, topo) = Inr (vs, topo @ [])" using True by simp
    ultimately show ?thesis using sg I2 by (intro exI [of _ vs] exI [of _ "[]"]) simp
  next
    case False
    define vs1 where "vs1 = vs[v := (vs ! v)\<lparr> gen := g \<rparr>]"
    have sg1: "same_graph vs0 vs1" unfolding vs1_def by (rule same_graph_mark [OF sg vl])
    from False I1 have vnt: "v \<notin> set topo" by auto
    have g1: "gen (vs1 ! v) = g" using vl len by (simp add: vs1_def)
    have kl: "\<forall>c\<in>set (kids_of (vs0 ! v)). c < v" using wf vl by (simp add: wf_heap_def)
    have visit: "\<exists>vsY newY. buildTopo depth g c (vsX, topo @ newX) = Inr (vsY, topo @ newX @ newY)
          \<and> same_graph vs0 vsY
          \<and> (\<forall>i<v. gen (vsY ! i) = g \<longleftrightarrow> i \<in> set (topo @ newX @ newY))
          \<and> topo_ok vs0 (rev (topo @ newX @ newY))
          \<and> (\<forall>i. i \<notin> set (newX @ newY) \<longrightarrow> vsY ! i = vs1 ! i)
          \<and> (\<forall>i\<in>set (newX @ newY). i < v)
          \<and> set (topo @ newX @ newY) = set (topo @ newX) \<union> {n. reaches vs0 c n}"
      if c: "c < v" and sX: "same_graph vs0 vsX"
        and iX: "\<forall>i<v. gen (vsX ! i) = g \<longleftrightarrow> i \<in> set (topo @ newX)"
        and tX: "topo_ok vs0 (rev (topo @ newX))"
        and fX: "\<forall>i. i \<notin> set newX \<longrightarrow> vsX ! i = vs1 ! i"
        and bX: "\<forall>i\<in>set newX. i < v"
      for c vsX newX
    proof -
      have p: "c < length vs0" "c < depth" "\<forall>i\<le>c. gen (vsX ! i) = g \<longleftrightarrow> i \<in> set (topo @ newX)"
        using c vl Suc.prems(3) iX by auto
      from Suc.IH [OF sX p tX] obtain vsY newY where
        Y: "buildTopo depth g c (vsX, topo @ newX) = Inr (vsY, (topo @ newX) @ newY)"
           "same_graph vs0 vsY" "\<forall>i. i \<notin> set newY \<longrightarrow> vsY ! i = vsX ! i"
           "\<forall>i\<in>set newY. i \<le> c \<and> gen (vsY ! i) = g"
           "topo_ok vs0 (rev ((topo @ newX) @ newY))"
           "set ((topo @ newX) @ newY) = set (topo @ newX) \<union> {n. reaches vs0 c n}" by blast
      have "\<forall>i<v. gen (vsY ! i) = g \<longleftrightarrow> i \<in> set (topo @ newX @ newY)"
      proof (intro allI impI)
        fix i assume "i < v"
        show "gen (vsY ! i) = g \<longleftrightarrow> i \<in> set (topo @ newX @ newY)"
        proof (cases "i \<in> set newY")
          case True
          with Y(4) show ?thesis by auto
        next
          case False
          with Y(3) have "vsY ! i = vsX ! i" by blast
          with iX \<open>i < v\<close> False show ?thesis by auto
        qed
      qed
      moreover have "\<forall>i. i \<notin> set (newX @ newY) \<longrightarrow> vsY ! i = vs1 ! i"
        using Y(3) fX by auto
      moreover have "\<forall>i\<in>set (newX @ newY). i < v" using bX Y(4) c by auto
      ultimately show ?thesis using Y(1,2,5,6) by auto
    qed
    define K1 where "K1 = (if nch (vs0 ! v) \<ge> 1 then (case c0 (vs0 ! v) of None \<Rightarrow> [] | Some c \<Rightarrow> [c]) else [])"
    define K2 where "K2 = (if nch (vs0 ! v) = 2 then (case c1 (vs0 ! v) of None \<Rightarrow> [] | Some c \<Rightarrow> [c]) else [])"
    have K: "kids_of (vs0 ! v) = K1 @ K2" unfolding K1_def K2_def by (rule kids_split)
    have i1: "\<forall>i<v. gen (vs1 ! i) = g \<longleftrightarrow> i \<in> set (topo @ [])"
      using I1 by (auto simp: vs1_def)
    \<comment> \<open>first child\<close>
    have "\<exists>vsA newA.
          (if nch (vs1 ! v) \<ge> 1
           then (case c0 (vs1 ! v) of None \<Rightarrow> Inl TypeError
                 | Some c \<Rightarrow> buildTopo depth g c (vs1, topo))
           else Inr (vs1, topo)) = Inr (vsA, topo @ newA)
          \<and> same_graph vs0 vsA
          \<and> (\<forall>i<v. gen (vsA ! i) = g \<longleftrightarrow> i \<in> set (topo @ newA))
          \<and> topo_ok vs0 (rev (topo @ newA))
          \<and> (\<forall>i. i \<notin> set newA \<longrightarrow> vsA ! i = vs1 ! i)
          \<and> (\<forall>i\<in>set newA. i < v)
          \<and> set (topo @ newA) = set topo \<union> {n. \<exists>c\<in>set K1. reaches vs0 c n}"
    proof (cases "nch (vs0 ! v) \<ge> 1")
      case True
      with wf vl obtain a where a: "c0 (vs0 ! v) = Some a" by (auto simp: wf_heap_def)
      with True have k1: "K1 = [a]" by (simp add: K1_def)
      with K kl have "a < v" by simp
      from visit [OF this sg1, of "[]"] i1 I2
      obtain vsY newY where Y: "buildTopo depth g a (vs1, topo) = Inr (vsY, topo @ newY)"
          "same_graph vs0 vsY" "\<forall>i<v. gen (vsY ! i) = g \<longleftrightarrow> i \<in> set (topo @ newY)"
          "topo_ok vs0 (rev (topo @ newY))" "\<forall>i. i \<notin> set newY \<longrightarrow> vsY ! i = vs1 ! i"
          "\<forall>i\<in>set newY. i < v" "set (topo @ newY) = set topo \<union> {n. reaches vs0 a n}"
        by auto
      have eq: "(if nch (vs1 ! v) \<ge> 1
           then (case c0 (vs1 ! v) of None \<Rightarrow> Inl TypeError
                 | Some c \<Rightarrow> buildTopo depth g c (vs1, topo))
           else Inr (vs1, topo)) = buildTopo depth g a (vs1, topo)"
        using True a same_graph_fields(1,2) [OF sg1 vl] by simp
      have r: "{n. \<exists>c\<in>set K1. reaches vs0 c n} = {n. reaches vs0 a n}" by (simp add: k1)
      show ?thesis unfolding eq r using Y by blast
    next
      case False
      then have "K1 = []" by (simp add: K1_def)
      then have r: "{n. \<exists>c\<in>set K1. reaches vs0 c n} = {}" by simp
      have eq: "(if nch (vs1 ! v) \<ge> 1
           then (case c0 (vs1 ! v) of None \<Rightarrow> Inl TypeError
                 | Some c \<Rightarrow> buildTopo depth g c (vs1, topo))
           else Inr (vs1, topo)) = Inr (vs1, topo @ [])"
        using False same_graph_fields(1) [OF sg1 vl] by simp
      have "topo_ok vs0 (rev (topo @ []))" "\<forall>i. i \<notin> set [] \<longrightarrow> vs1 ! i = vs1 ! i"
        "\<forall>i\<in>set ([]::nat list). i < v" "set (topo @ []) = set topo \<union> {}"
        using I2 by simp_all
      with sg1 i1 show ?thesis unfolding eq r by blast
    qed
    then obtain vsA newA where
      A: "(if nch (vs1 ! v) \<ge> 1
           then (case c0 (vs1 ! v) of None \<Rightarrow> Inl TypeError
                 | Some c \<Rightarrow> buildTopo depth g c (vs1, topo))
           else Inr (vs1, topo)) = Inr (vsA, topo @ newA)"
         "same_graph vs0 vsA" "\<forall>i<v. gen (vsA ! i) = g \<longleftrightarrow> i \<in> set (topo @ newA)"
         "topo_ok vs0 (rev (topo @ newA))" "\<forall>i. i \<notin> set newA \<longrightarrow> vsA ! i = vs1 ! i"
         "\<forall>i\<in>set newA. i < v"
         "set (topo @ newA) = set topo \<union> {n. \<exists>c\<in>set K1. reaches vs0 c n}" by blast
    \<comment> \<open>second child\<close>
    have "\<exists>vsB newB.
          (if nch (vsA ! v) = 2
           then (case c1 (vsA ! v) of None \<Rightarrow> Inl TypeError
                 | Some c \<Rightarrow> buildTopo depth g c (vsA, topo @ newA))
           else Inr (vsA, topo @ newA)) = Inr (vsB, topo @ newA @ newB)
          \<and> same_graph vs0 vsB
          \<and> (\<forall>i<v. gen (vsB ! i) = g \<longleftrightarrow> i \<in> set (topo @ newA @ newB))
          \<and> topo_ok vs0 (rev (topo @ newA @ newB))
          \<and> (\<forall>i. i \<notin> set (newA @ newB) \<longrightarrow> vsB ! i = vs1 ! i)
          \<and> (\<forall>i\<in>set (newA @ newB). i < v)
          \<and> set (topo @ newA @ newB) = set (topo @ newA) \<union> {n. \<exists>c\<in>set K2. reaches vs0 c n}"
    proof (cases "nch (vs0 ! v) = 2")
      case True
      with wf vl obtain b where b: "c1 (vs0 ! v) = Some b" by (auto simp: wf_heap_def)
      with True have k2: "K2 = [b]" by (simp add: K2_def)
      with K kl have "b < v" by simp
      from visit [OF this A(2,3,4,5,6)]
      obtain vsY newY where Y: "buildTopo depth g b (vsA, topo @ newA) = Inr (vsY, topo @ newA @ newY)"
          "same_graph vs0 vsY" "\<forall>i<v. gen (vsY ! i) = g \<longleftrightarrow> i \<in> set (topo @ newA @ newY)"
          "topo_ok vs0 (rev (topo @ newA @ newY))" "\<forall>i. i \<notin> set (newA @ newY) \<longrightarrow> vsY ! i = vs1 ! i"
          "\<forall>i\<in>set (newA @ newY). i < v"
          "set (topo @ newA @ newY) = set (topo @ newA) \<union> {n. reaches vs0 b n}"
        by blast
      have eq: "(if nch (vsA ! v) = 2
           then (case c1 (vsA ! v) of None \<Rightarrow> Inl TypeError
                 | Some c \<Rightarrow> buildTopo depth g c (vsA, topo @ newA))
           else Inr (vsA, topo @ newA)) = buildTopo depth g b (vsA, topo @ newA)"
        using True b same_graph_fields(1,3) [OF A(2) vl] by simp
      have r: "{n. \<exists>c\<in>set K2. reaches vs0 c n} = {n. reaches vs0 b n}" by (simp add: k2)
      show ?thesis unfolding eq r using Y by blast
    next
      case False
      then have "K2 = []" by (simp add: K2_def)
      then have r: "{n. \<exists>c\<in>set K2. reaches vs0 c n} = {}" by simp
      have eq: "(if nch (vsA ! v) = 2
           then (case c1 (vsA ! v) of None \<Rightarrow> Inl TypeError
                 | Some c \<Rightarrow> buildTopo depth g c (vsA, topo @ newA))
           else Inr (vsA, topo @ newA)) = Inr (vsA, topo @ newA @ [])"
        using False same_graph_fields(1) [OF A(2) vl] by simp
      have "\<forall>i<v. gen (vsA ! i) = g \<longleftrightarrow> i \<in> set (topo @ newA @ [])"
        "topo_ok vs0 (rev (topo @ newA @ []))" "\<forall>i. i \<notin> set (newA @ []) \<longrightarrow> vsA ! i = vs1 ! i"
        "\<forall>i\<in>set (newA @ []). i < v" "set (topo @ newA @ []) = set (topo @ newA) \<union> {}"
        using A(3,4,5,6) by simp_all
      with A(2) show ?thesis unfolding eq r by blast
    qed
    then obtain vsB newB where
      B: "(if nch (vsA ! v) = 2
           then (case c1 (vsA ! v) of None \<Rightarrow> Inl TypeError
                 | Some c \<Rightarrow> buildTopo depth g c (vsA, topo @ newA))
           else Inr (vsA, topo @ newA)) = Inr (vsB, topo @ newA @ newB)"
         "same_graph vs0 vsB" "\<forall>i<v. gen (vsB ! i) = g \<longleftrightarrow> i \<in> set (topo @ newA @ newB)"
         "topo_ok vs0 (rev (topo @ newA @ newB))" "\<forall>i. i \<notin> set (newA @ newB) \<longrightarrow> vsB ! i = vs1 ! i"
         "\<forall>i\<in>set (newA @ newB). i < v"
         "set (topo @ newA @ newB) = set (topo @ newA) \<union> {n. \<exists>c\<in>set K2. reaches vs0 c n}" by blast
    let ?new = "newA @ newB @ [v]"
    have run: "buildTopo (Suc depth) g v (vs, topo) = Inr (vsB, topo @ ?new)"
      unfolding buildTopo.simps Let_def vs1_def [symmetric]
      by (simp only: False if_False A(1) bind_err_simps fst_conv B(1) prod.case append_assoc)
    have vB: "vsB ! v = vs1 ! v" using B(5,6) by auto
    have frame: "\<forall>i. i \<notin> set ?new \<longrightarrow> vsB ! i = vs ! i"
      using B(5) by (auto simp: vs1_def)
    have marks: "\<forall>i\<in>set ?new. i \<le> v \<and> gen (vsB ! i) = g"
    proof
      fix i assume "i \<in> set ?new"
      then consider "i = v" | "i \<in> set (newA @ newB)" by auto
      then show "i \<le> v \<and> gen (vsB ! i) = g"
      proof cases
        case 1
        then show ?thesis using vB g1 by simp
      next
        case 2
        with B(6) have "i < v" by blast
        with B(3) 2 show ?thesis by auto
      qed
    qed
    have sets: "set (topo @ newA @ newB) = set topo \<union> {n. \<exists>c\<in>set (kids_of (vs0 ! v)). reaches vs0 c n}"
      using A(7) B(7) K by auto
    have "\<forall>c\<in>set (kids_of (vs0 ! v)). c \<in> set (topo @ newA @ newB)"
      unfolding sets by (auto intro: reaches_refl)
    moreover have "v \<notin> set (topo @ newA @ newB)" using vnt B(6) by auto
    ultimately have tk: "topo_ok vs0 (rev (topo @ ?new))" using B(4) by auto
    have "set (topo @ ?new) = set topo \<union> {n. reaches vs0 v n}"
    proof -
      have "{n. reaches vs0 v n} = insert v {n. \<exists>c\<in>set (kids_of (vs0 ! v)). reaches vs0 c n}"
        by (subst reaches_unfold) auto
      with sets show ?thesis by auto
    qed
    with run B(2) frame marks tk show ?thesis by blast
  qed
qed

lemma same_graph_shape: "same_graph vs0 vs \<Longrightarrow> same_shape vs0 vs"
  unfolding same_graph_def same_shape_def
proof (intro conjI allI impI)
  assume a: "length vs = length vs0 \<and> (\<forall>i<length vs0. vs ! i = (vs0 ! i)\<lparr>gen := gen (vs ! i)\<rparr>)"
  then show "length vs = length vs0" by simp
  fix i assume "i < length vs0"
  with a have e: "vs ! i = (vs0 ! i)\<lparr>gen := gen (vs ! i)\<rparr>" by simp
  have "grad (vs ! i) = grad (vs0 ! i)" by (subst e) simp
  then show "vs ! i = (vs0 ! i)\<lparr>grad := grad (vs ! i), gen := gen (vs ! i)\<rparr>"
    using e by simp
qed

lemma same_shape_fields:
  assumes "same_shape vs0 vs" "i < length vs0"
  shows "nch (vs ! i) = nch (vs0 ! i)" "c0 (vs ! i) = c0 (vs0 ! i)" "c1 (vs ! i) = c1 (vs0 ! i)"
    "lg0 (vs ! i) = lg0 (vs0 ! i)" "lg1 (vs ! i) = lg1 (vs0 ! i)"
    "data (vs ! i) = data (vs0 ! i)"
    "edges_of (vs ! i) = edges_of (vs0 ! i)"
proof -
  from assms have e: "vs ! i = (vs0 ! i)\<lparr> grad := grad (vs ! i), gen := gen (vs ! i) \<rparr>"
    by (simp add: same_shape_def)
  show f: "nch (vs ! i) = nch (vs0 ! i)" "c0 (vs ! i) = c0 (vs0 ! i)" "c1 (vs ! i) = c1 (vs0 ! i)"
    "lg0 (vs ! i) = lg0 (vs0 ! i)" "lg1 (vs ! i) = lg1 (vs0 ! i)"
    "data (vs ! i) = data (vs0 ! i)"
    by (subst e, simp)+
  show "edges_of (vs ! i) = edges_of (vs0 ! i)" by (simp add: edges_of_def f split: option.splits)
qed

lemma same_shape_grad_upd:
  assumes "same_shape vs0 vs"
  shows "same_shape vs0 (vs[c := (vs ! c)\<lparr> grad := x \<rparr>])"
  unfolding same_shape_def
proof (intro conjI allI impI)
  from assms show "length (vs[c := (vs ! c)\<lparr>grad := x\<rparr>]) = length vs0" by (simp add: same_shape_def)
  fix i assume i: "i < length vs0"
  from assms have l: "length vs = length vs0" by (simp add: same_shape_def)
  from assms i have e: "vs ! i = (vs0 ! i)\<lparr> grad := grad (vs ! i), gen := gen (vs ! i) \<rparr>"
    by (simp add: same_shape_def)
  show "vs[c := (vs ! c)\<lparr>grad := x\<rparr>] ! i
        = (vs0 ! i)\<lparr>grad := grad (vs[c := (vs ! c)\<lparr>grad := x\<rparr>] ! i),
                    gen := gen (vs[c := (vs ! c)\<lparr>grad := x\<rparr>] ! i)\<rparr>"
  proof (cases "i = c")
    case True
    with i l have "vs[c := (vs ! c)\<lparr>grad := x\<rparr>] ! i = (vs ! i)\<lparr>grad := x\<rparr>" by simp
    also have "\<dots> = (vs0 ! i)\<lparr>grad := x, gen := gen (vs ! i)\<rparr>" by (subst e) simp
    finally show ?thesis by simp
  next
    case False
    then show ?thesis using e by simp
  qed
qed

lemma gen_grad_upd: "gen (vs[c := (vs ! c)\<lparr> grad := x \<rparr>] ! i) = gen (vs ! i)"
  by (cases "c < length vs") (auto simp: nth_list_update list_update_beyond)

lemma edges_cases:
  assumes "wf_heap vs0" "v < length vs0"
  obtains (none) "\<not> nch (vs0 ! v) \<ge> 1" "nch (vs0 ! v) \<noteq> 2" "edges_of (vs0 ! v) = []"
  | (one) a where "nch (vs0 ! v) \<ge> 1" "nch (vs0 ! v) \<noteq> 2" "c0 (vs0 ! v) = Some a" "a < v"
      "edges_of (vs0 ! v) = [(a, lg0 (vs0 ! v))]"
  | (two) a b where "nch (vs0 ! v) \<ge> 1" "nch (vs0 ! v) = 2" "c0 (vs0 ! v) = Some a"
      "c1 (vs0 ! v) = Some b" "a < v" "b < v"
      "edges_of (vs0 ! v) = [(a, lg0 (vs0 ! v)), (b, lg1 (vs0 ! v))]"
proof (cases "nch (vs0 ! v) \<ge> 1")
  case False
  then have "nch (vs0 ! v) \<noteq> 2" by simp
  with False show ?thesis by (intro none) (simp_all add: edges_of_def)
next
  case True
  with assms obtain a where a: "c0 (vs0 ! v) = Some a" by (auto simp: wf_heap_def)
  show ?thesis
  proof (cases "nch (vs0 ! v) = 2")
    case n2: False
    with True a have e: "edges_of (vs0 ! v) = [(a, lg0 (vs0 ! v))]" by (simp add: edges_of_def)
    then have "a \<in> set (kids_of (vs0 ! v))" by (simp add: kids_of_def)
    with assms have "a < v" by (simp add: wf_heap_def)
    with True n2 a e show ?thesis by (intro one)
  next
    case n2: True
    with assms obtain b where b: "c1 (vs0 ! v) = Some b" by (auto simp: wf_heap_def)
    with True n2 a have e: "edges_of (vs0 ! v) = [(a, lg0 (vs0 ! v)), (b, lg1 (vs0 ! v))]"
      by (simp add: edges_of_def)
    then have "a \<in> set (kids_of (vs0 ! v))" "b \<in> set (kids_of (vs0 ! v))" by (simp_all add: kids_of_def)
    with assms have "a < v" "b < v" by (simp_all add: wf_heap_def)
    with True n2 a b e show ?thesis by (intro two)
  qed
qed

text \<open>The contribution of one step of the loop to the gradient of cell \<open>n\<close>.\<close>

lemma backward_step_correct:
  assumes wf: "wf_heap vs0" and ss: "same_shape vs0 vs" and vl: "v < length vs0"
  shows "\<exists>vs'. backward_step vs v = Inr vs' \<and> same_shape vs0 vs'
          \<and> (\<forall>i. gen (vs' ! i) = gen (vs ! i))
          \<and> (\<forall>n<length vs0. grad (vs' ! n)
                = grad (vs ! n)
                  + sum_list (map (\<lambda>e. if fst e = n then snd e * grad (vs ! v) else 0)
                                  (edges_of (vs0 ! v))))"
proof -
  from ss have len: "length vs = length vs0" by (simp add: same_shape_def)
  note f = same_shape_fields [OF ss vl]
  from wf vl show ?thesis
  proof (cases rule: edges_cases)
    case none
    then have "backward_step vs v = Inr vs" by (simp add: backward_step_def f Let_def)
    with ss none(3) show ?thesis by simp
  next
    case (one a)
    define vs1 where "vs1 = vs[a := (vs ! a)\<lparr> grad := grad (vs ! a) + lg0 (vs0 ! v) * grad (vs ! v) \<rparr>]"
    have s1: "same_shape vs0 vs1" unfolding vs1_def by (rule same_shape_grad_upd [OF ss])
    note f1 = same_shape_fields [OF s1 vl]
    have "backward_step vs v = Inr vs1"
      using one by (simp add: backward_step_def f Let_def vs1_def [symmetric] f1)
    moreover have "\<forall>i. gen (vs1 ! i) = gen (vs ! i)"
      by (simp add: vs1_def gen_grad_upd)
    moreover have "\<forall>n<length vs0. grad (vs1 ! n) = grad (vs ! n)
                  + sum_list (map (\<lambda>e. if fst e = n then snd e * grad (vs ! v) else 0)
                                  (edges_of (vs0 ! v)))"
      using len by (auto simp: one(5) vs1_def nth_list_update)
    ultimately show ?thesis using s1 by blast
  next
    case (two a b)
    define vs1 where "vs1 = vs[a := (vs ! a)\<lparr> grad := grad (vs ! a) + lg0 (vs0 ! v) * grad (vs ! v) \<rparr>]"
    define vs2 where "vs2 = vs1[b := (vs1 ! b)\<lparr> grad := grad (vs1 ! b) + lg1 (vs0 ! v) * grad (vs ! v) \<rparr>]"
    have s1: "same_shape vs0 vs1" unfolding vs1_def by (rule same_shape_grad_upd [OF ss])
    have s2: "same_shape vs0 vs2" unfolding vs2_def by (rule same_shape_grad_upd [OF s1])
    note f1 = same_shape_fields [OF s1 vl]
    have "backward_step vs v = Inr vs2"
      using two by (simp add: backward_step_def f Let_def vs1_def [symmetric] f1 vs2_def [symmetric])
    moreover have "\<forall>i. gen (vs2 ! i) = gen (vs ! i)"
      by (simp add: vs1_def vs2_def gen_grad_upd)
    moreover have "\<forall>n<length vs0. grad (vs2 ! n) = grad (vs ! n)
                  + sum_list (map (\<lambda>e. if fst e = n then snd e * grad (vs ! v) else 0)
                                  (edges_of (vs0 ! v)))"
      using len by (auto simp: two(7) vs1_def vs2_def nth_list_update)
    ultimately show ?thesis using s2 by blast
  qed
qed

lemma deriv_self: "deriv vs n n = 1"
  by (subst deriv.simps) simp

lemma deriv_unfold_wf:
  assumes "wf_heap vs0" "k < length vs0" "k \<noteq> n"
  shows "deriv vs0 n k = sum_list (map (\<lambda>e. snd e * deriv vs0 n (fst e)) (edges_of (vs0 ! k)))"
proof -
  have "\<forall>e\<in>set (edges_of (vs0 ! k)). fst e < k"
    using assms(1,2) by (auto simp: wf_heap_def kids_of_def)
  then have eq: "map (\<lambda>e. if fst e < k then snd e * deriv vs0 n (fst e) else 0) (edges_of (vs0 ! k))
             = map (\<lambda>e. snd e * deriv vs0 n (fst e)) (edges_of (vs0 ! k))"
    by (intro map_cong) auto
  show ?thesis by (subst deriv.simps) (simp only: assms(3) if_False eq)
qed

lemma sum_list_all_zero: "\<forall>x\<in>set xs. f x = (0::real) \<Longrightarrow> sum_list (map f xs) = 0"
  by (induction xs) auto

lemma deriv_zero:
  assumes "topo_ok vs0 xs" "x \<notin> set xs"
  shows "n \<in> set xs \<Longrightarrow> deriv vs0 x n = 0"
proof (induction n rule: less_induct)
  case (less n)
  with assms(2) have ne: "n \<noteq> x" by auto
  have "\<forall>e\<in>set (edges_of (vs0 ! n)). (if fst e < n then snd e * deriv vs0 x (fst e) else 0) = 0"
  proof
    fix e assume e: "e \<in> set (edges_of (vs0 ! n))"
    then have "fst e \<in> set (kids_of (vs0 ! n))" by (simp add: kids_of_def)
    with topo_ok_closed [OF assms(1) less.prems] have "fst e \<in> set xs" by blast
    with less.IH show "(if fst e < n then snd e * deriv vs0 x (fst e) else 0) = 0" by simp
  qed
  then have "sum_list (map (\<lambda>e. if fst e < n then snd e * deriv vs0 x (fst e) else 0)
                (edges_of (vs0 ! n))) = 0"
    by (rule sum_list_all_zero)
  with ne show ?case by (subst deriv.simps) simp
qed

lemma delta_sum:
  fixes D :: "nat \<Rightarrow> real"
  assumes "finite S"
  shows "\<forall>e\<in>set es. fst e \<in> S \<Longrightarrow>
    (\<Sum>n\<in>S. sum_list (map (\<lambda>e. if fst e = n then snd e * g else 0) es) * D n)
      = g * sum_list (map (\<lambda>e. snd e * D (fst e)) es)"
proof (induction es)
  case Nil
  then show ?case by simp
next
  case (Cons e es)
  have "(\<Sum>n\<in>S. sum_list (map (\<lambda>e. if fst e = n then snd e * g else 0) (e # es)) * D n)
        = (\<Sum>n\<in>S. (if fst e = n then snd e * g * D n else 0))
          + (\<Sum>n\<in>S. sum_list (map (\<lambda>e. if fst e = n then snd e * g else 0) es) * D n)"
    by (simp add: sum.distrib [symmetric] distrib_right if_distrib [of "\<lambda>x. x * _"] cong: if_cong)
  also have "(\<Sum>n\<in>S. (if fst e = n then snd e * g * D n else 0)) = snd e * g * D (fst e)"
    using assms Cons.prems by (simp add: sum.delta')
  also have "(\<Sum>n\<in>S. sum_list (map (\<lambda>e. if fst e = n then snd e * g else 0) es) * D n)
        = g * sum_list (map (\<lambda>e. snd e * D (fst e)) es)"
    using Cons by simp
  finally show ?case by (simp add: algebra_simps)
qed

lemma delta_zero:
  "\<forall>e\<in>set es. fst e \<noteq> n \<Longrightarrow> sum_list (map (\<lambda>e. if fst e = n then snd e * (g::real) else 0) es) = 0"
  by (induction es) auto

lemma backward_loop_correct:
  assumes wf: "wf_heap vs0"
  shows "topo_ok vs0 rest \<Longrightarrow> \<forall>x\<in>set rest. x < length vs0 \<Longrightarrow> same_shape vs0 vs \<Longrightarrow>
    \<exists>vs'. foldl_err backward_step vs rest = Inr vs' \<and> same_shape vs0 vs'
         \<and> (\<forall>i. gen (vs' ! i) = gen (vs ! i))
         \<and> (\<forall>x<length vs0. x \<notin> set rest \<longrightarrow> grad (vs' ! x) = grad (vs ! x))
         \<and> (\<forall>x\<in>set rest. grad (vs' ! x) = (\<Sum>n\<in>set rest. grad (vs ! n) * deriv vs0 x n))"
proof (induction rest arbitrary: vs)
  case Nil
  then show ?case by simp
next
  case (Cons v rest)
  from Cons.prems have vl: "v < length vs0" and vr: "v \<notin> set rest"
    and kr: "set (kids_of (vs0 ! v)) \<subseteq> set rest" and tr: "topo_ok vs0 rest"
    and rl: "\<forall>x\<in>set rest. x < length vs0" by auto
  define dl where "dl n = sum_list (map (\<lambda>e. if fst e = n then snd e * grad (vs ! v) else 0)
                                  (edges_of (vs0 ! v)))" for n
  from backward_step_correct [OF wf Cons.prems(3) vl] obtain vs1 where
    S: "backward_step vs v = Inr vs1" "same_shape vs0 vs1" "\<forall>i. gen (vs1 ! i) = gen (vs ! i)"
       "\<forall>n<length vs0. grad (vs1 ! n) = grad (vs ! n) + dl n"
    unfolding dl_def by blast
  from Cons.IH [OF tr rl S(2)] obtain vs' where
    L: "foldl_err backward_step vs1 rest = Inr vs'" "same_shape vs0 vs'"
       "\<forall>i. gen (vs' ! i) = gen (vs1 ! i)"
       "\<forall>x<length vs0. x \<notin> set rest \<longrightarrow> grad (vs' ! x) = grad (vs1 ! x)"
       "\<forall>x\<in>set rest. grad (vs' ! x) = (\<Sum>n\<in>set rest. grad (vs1 ! n) * deriv vs0 x n)"
    by blast
  have er: "\<forall>e\<in>set (edges_of (vs0 ! v)). fst e \<in> set rest"
    using kr by (auto simp: kids_of_def)
  have dz: "dl n = 0" if "n \<notin> set rest" for n
    unfolding dl_def using er that by (intro delta_zero) auto
  have run: "foldl_err backward_step vs (v # rest) = Inr vs'" by (simp add: S(1) L(1))
  have frame: "\<forall>x<length vs0. x \<notin> set (v # rest) \<longrightarrow> grad (vs' ! x) = grad (vs ! x)"
    using L(4) S(4) dz by auto
  have main: "\<forall>x\<in>set (v # rest). grad (vs' ! x) = (\<Sum>n\<in>set (v # rest). grad (vs ! n) * deriv vs0 x n)"
  proof
    fix x assume x: "x \<in> set (v # rest)"
    show "grad (vs' ! x) = (\<Sum>n\<in>set (v # rest). grad (vs ! n) * deriv vs0 x n)"
    proof (cases "x = v")
      case True
      have "grad (vs' ! v) = grad (vs ! v)" using L(4) S(4) vl vr dz by auto
      moreover have "(\<Sum>n\<in>set rest. grad (vs ! n) * deriv vs0 v n) = 0"
        using deriv_zero [OF tr vr] by (intro sum.neutral) auto
      ultimately show ?thesis using True vr by (simp add: deriv_self)
    next
      case False
      with x have xr: "x \<in> set rest" by simp
      have "grad (vs' ! x) = (\<Sum>n\<in>set rest. grad (vs1 ! n) * deriv vs0 x n)" using L(5) xr by blast
      also have "\<dots> = (\<Sum>n\<in>set rest. (grad (vs ! n) + dl n) * deriv vs0 x n)"
        using S(4) rl by (intro sum.cong) auto
      also have "\<dots> = (\<Sum>n\<in>set rest. grad (vs ! n) * deriv vs0 x n)
                      + (\<Sum>n\<in>set rest. dl n * deriv vs0 x n)"
        by (simp add: distrib_right sum.distrib)
      also have "(\<Sum>n\<in>set rest. dl n * deriv vs0 x n)
                 = grad (vs ! v) * sum_list (map (\<lambda>e. snd e * deriv vs0 x (fst e)) (edges_of (vs0 ! v)))"
        unfolding dl_def by (rule delta_sum [OF _ er]) simp
      also have "sum_list (map (\<lambda>e. snd e * deriv vs0 x (fst e)) (edges_of (vs0 ! v))) = deriv vs0 x v"
        using deriv_unfold_wf [OF wf vl, of x] False by simp
      finally show ?thesis using vr by simp
    qed
  qed
  from run L(2) L(3) S(3) frame main show ?case by auto
qed

lemma same_shape_wf:
  assumes "wf_heap vs0" "same_shape vs0 vs"
  shows "wf_heap vs"
proof -
  from assms(2) have l: "length vs = length vs0" by (simp add: same_shape_def)
  show ?thesis unfolding wf_heap_def
  proof (intro allI impI)
    fix v assume "v < length vs"
    with l have v: "v < length vs0" by simp
    note f = same_shape_fields [OF assms(2) v]
    from f(7) have "kids_of (vs ! v) = kids_of (vs0 ! v)" by (simp add: kids_of_def)
    with assms(1) v f(1,2,3)
    show "(1 \<le> nch (vs ! v) \<longrightarrow> c0 (vs ! v) \<noteq> None) \<and> (nch (vs ! v) = 2 \<longrightarrow> c1 (vs ! v) \<noteq> None)
          \<and> (\<forall>c\<in>set (kids_of (vs ! v)). c < v)"
      by (simp add: wf_heap_def)
  qed
qed

lemma backward_correct:
  assumes wf: "wf_heap (cells h)" and go: "gens_ok h"
    and rl: "this < length (cells h)" and dp: "this < depth"
    and zero: "\<forall>n. reaches (cells h) this n \<longrightarrow> grad (cells h ! n) = 0"
  shows "\<exists>h' vs topo.
           buildTopo depth (gen_counter h + 1) this (cells h, []) = Inr (vs, topo)
           \<and> distinct topo \<and> set topo = {n. reaches (cells h) this n}
           \<and> backward depth this h = Inr h'
           \<and> (\<forall>n. reaches (cells h) this n \<longrightarrow> grad (cells h' ! n) = deriv (cells h) n this)
           \<and> (\<forall>n<length (cells h). \<not> reaches (cells h) this n \<longrightarrow> grad (cells h' ! n) = grad (cells h ! n))
           \<and> same_shape (cells h) (cells h')
           \<and> gen_counter h' = gen_counter h + 1 \<and> gens_ok h' \<and> wf_heap (cells h')"
proof -
  define vs0 where "vs0 = cells h"
  define g where "g = gen_counter h + 1"
  note wf0 = wf [folded vs0_def] and rl0 = rl [folded vs0_def]
  have fresh: "\<forall>i<length vs0. gen (vs0 ! i) \<noteq> g"
    using go by (auto simp: gens_ok_def vs0_def g_def)
  with rl0 have I1: "\<forall>i\<le>this. gen (vs0 ! i) = g \<longleftrightarrow> i \<in> set []" by auto
  have I2: "topo_ok vs0 (rev [])" by simp
  from buildTopo_correct [OF wf0 same_graph_refl rl0 dp I1 I2]
  obtain vs1 topo where
    B: "buildTopo depth g this (vs0, []) = Inr (vs1, topo)" "same_graph vs0 vs1"
       "\<forall>i. i \<notin> set topo \<longrightarrow> vs1 ! i = vs0 ! i" "\<forall>i\<in>set topo. i \<le> this \<and> gen (vs1 ! i) = g"
       "topo_ok vs0 (rev topo)" "set topo = {n. reaches vs0 this n}" by auto
  from B(2) have l1: "length vs1 = length vs0" by (simp add: same_graph_def)
  define vs2 where "vs2 = vs1[this := (vs1 ! this)\<lparr> grad := 1 \<rparr>]"
  have s2: "same_shape vs0 vs2"
    unfolding vs2_def by (rule same_shape_grad_upd [OF same_graph_shape [OF B(2)]])
  have g2: "grad (vs2 ! n) = (if n = this then 1 else 0)" if "n \<in> set topo" for n
  proof (cases "n = this")
    case True
    then show ?thesis using rl0 l1 by (simp add: vs2_def)
  next
    case False
    from that B(4) rl0 have nl: "n < length vs0" by auto
    from that B(6) zero have "grad (vs0 ! n) = 0" by (simp add: vs0_def)
    with same_graph_fields(7) [OF B(2) nl] False show ?thesis by (simp add: vs2_def)
  qed
  have tl: "\<forall>x\<in>set (rev topo). x < length vs0" using B(4) rl0 by auto
  from backward_loop_correct [OF wf0 B(5) tl s2] obtain vs3 where
    L: "foldl_err backward_step vs2 (rev topo) = Inr vs3" "same_shape vs0 vs3"
       "\<forall>i. gen (vs3 ! i) = gen (vs2 ! i)"
       "\<forall>x<length vs0. x \<notin> set (rev topo) \<longrightarrow> grad (vs3 ! x) = grad (vs2 ! x)"
       "\<forall>x\<in>set (rev topo). grad (vs3 ! x) = (\<Sum>n\<in>set (rev topo). grad (vs2 ! n) * deriv vs0 x n)"
    by blast
  define h' where "h' = \<lparr> cells = vs3, gen_counter = g \<rparr>"
  have run: "backward depth this h = Inr h'"
    unfolding backward_def Let_def g_def [symmetric] vs0_def [symmetric]
    by (simp add: B(1) vs2_def [symmetric] L(1) h'_def)
  have rt: "this \<in> set topo" using B(6) by (auto intro: reaches_refl)
  have grads: "\<forall>n. reaches vs0 this n \<longrightarrow> grad (vs3 ! n) = deriv vs0 n this"
  proof (intro allI impI)
    fix x assume "reaches vs0 this x"
    with B(6) have x: "x \<in> set topo" by simp
    with L(5) have "grad (vs3 ! x) = (\<Sum>n\<in>set topo. grad (vs2 ! n) * deriv vs0 x n)" by simp
    also have "\<dots> = (\<Sum>n\<in>set topo. if n = this then deriv vs0 x n else 0)"
      using g2 by (intro sum.cong) auto
    also have "\<dots> = deriv vs0 x this" using rt by (simp add: sum.delta)
    finally show "grad (vs3 ! x) = deriv vs0 x this" .
  qed
  have others: "\<forall>n<length vs0. \<not> reaches vs0 this n \<longrightarrow> grad (vs3 ! n) = grad (vs0 ! n)"
  proof (intro allI impI)
    fix n assume n: "n < length vs0" "\<not> reaches vs0 this n"
    with B(6) have nt: "n \<notin> set topo" by simp
    with rt have "n \<noteq> this" by auto
    with L(4) n(1) nt have "grad (vs3 ! n) = grad (vs1 ! n)" by (simp add: vs2_def)
    with same_graph_fields(7) [OF B(2) n(1)] show "grad (vs3 ! n) = grad (vs0 ! n)" by simp
  qed
  have l3: "length vs3 = length vs0" using L(2) by (simp add: same_shape_def)
  have gens: "gens_ok h'"
    unfolding gens_ok_def h'_def
  proof (intro allI impI)
    fix v assume "v < length (cells \<lparr>cells = vs3, gen_counter = g\<rparr>)"
    with l3 have v: "v < length vs0" by simp
    have "gen (vs3 ! v) = gen (vs1 ! v)" using L(3) by (simp add: vs2_def gen_grad_upd)
    moreover have "gen (vs1 ! v) \<le> g"
    proof (cases "v \<in> set topo")
      case True
      with B(4) show ?thesis by simp
    next
      case False
      with B(3) have "vs1 ! v = vs0 ! v" by blast
      with go v show ?thesis by (simp add: gens_ok_def vs0_def g_def le_SucI)
    qed
    ultimately show "gen (cells \<lparr>cells = vs3, gen_counter = g\<rparr> ! v)
                     \<le> gen_counter \<lparr>cells = vs3, gen_counter = g\<rparr>" by simp
  qed
  have "distinct topo" using topo_ok_distinct [OF B(5)] by simp
  moreover have "wf_heap (cells h')" using same_shape_wf [OF wf0 L(2)] by (simp add: h'_def)
  moreover have "same_shape (cells h) (cells h')" using L(2) by (simp add: h'_def vs0_def)
  moreover have "gen_counter h' = gen_counter h + 1" by (simp add: h'_def g_def)
  moreover have "cells h' = vs3" by (simp add: h'_def)
  ultimately show ?thesis
    using B(1) B(6) run grads others gens unfolding vs0_def g_def by auto
qed

section \<open>The gradient as a derivative\<close>

lemma cell_fields:
  assumes "v\<lparr> grad := 0, gen := 0 \<rparr> = w"
  shows "nch v = nch w" "c0 v = c0 w" "c1 v = c1 w" "lg0 v = lg0 w" "lg1 v = lg1 w" "data v = data w"
  using assms by (cases v; cases w; simp)+

lemma alloc_cell: "k \<le> length vs \<Longrightarrow> cells (fst (alloc \<lparr> cells = take k vs, gen_counter = 0 \<rparr> w)) ! k = w"
  by (simp add: alloc_def nth_append)

text \<open>
  Where \<open>pow\<close>, \<open>log\<close> and \<open>div\<close> have no result: at data 0, \<open>pow\<close> with an exponent below 1
  (the exponent 0 included) and \<open>log\<close>; \<open>div\<close> by the number 0 and by a Value of data 0. A
  point at which \<open>pow\<close> is \<open>smooth_at\<close> is one where it has a result.
\<close>

lemma pow_at_zero:
  assumes "data (cells h ! a) = 0"
  shows "pow h a e = None \<longleftrightarrow> e < 1"
  using assms by (auto simp: pow_def pow_finite_def)

lemma log_v_nonpos:
  "log_v h a = None \<longleftrightarrow> data (cells h ! a) \<le> 0"
  by (auto simp: log_v_def)

lemma div_v_zero:
  "div_v h a (Num 0) = None"
  "data (cells h ! b) = 0 \<Longrightarrow> div_v h a (Val b) = None"
  by (simp_all add: div_v_def pow_def pow_finite_def)

lemma smooth_at_pow_finite:
  assumes "smooth_at (OPow e) x"
  shows "pow_finite x e \<and> pow_finite x (e - 1)"
  using assms by (auto simp: smooth_at_def pow_finite_def split: if_splits)

lemma created_by_alt:
  assumes "k \<le> length vs"
  shows "created_by p vs k \<longleftrightarrow>
     (case p of
        OLeaf \<Rightarrow> (vs ! k)\<lparr> grad := 0, gen := 0 \<rparr> = Value_new (data (vs ! k)) [] []
      | OAddV \<Rightarrow> (\<exists>a<k. \<exists>b<k. (vs ! k)\<lparr> grad := 0, gen := 0 \<rparr>
                      = Value_new (data (vs ! a) + data (vs ! b)) [a, b] [1, 1])
      | OAddN n \<Rightarrow> (\<exists>a<k. (vs ! k)\<lparr> grad := 0, gen := 0 \<rparr> = Value_new (data (vs ! a) + n) [a] [1])
      | OMulV \<Rightarrow> (\<exists>a<k. \<exists>b<k. (vs ! k)\<lparr> grad := 0, gen := 0 \<rparr>
                      = Value_new (data (vs ! a) * data (vs ! b)) [a, b] [data (vs ! b), data (vs ! a)])
      | OMulN n \<Rightarrow> (\<exists>a<k. (vs ! k)\<lparr> grad := 0, gen := 0 \<rparr> = Value_new (data (vs ! a) * n) [a] [n])
      | OPow e \<Rightarrow> (\<exists>a<k. pow_finite (data (vs ! a)) e \<and> pow_finite (data (vs ! a)) (e - 1)
                      \<and> (vs ! k)\<lparr> grad := 0, gen := 0 \<rparr>
                          = Value_new (js_pow (data (vs ! a)) e) [a] [e * js_pow (data (vs ! a)) (e - 1)])
      | OLog \<Rightarrow> (\<exists>a<k. 0 < data (vs ! a)
                      \<and> (vs ! k)\<lparr> grad := 0, gen := 0 \<rparr>
                          = Value_new (ln (data (vs ! a))) [a] [1 / data (vs ! a)])
      | OExp \<Rightarrow> (\<exists>a<k. (vs ! k)\<lparr> grad := 0, gen := 0 \<rparr>
                      = Value_new (exp (data (vs ! a))) [a] [exp (data (vs ! a))])
      | ORelu \<Rightarrow> (\<exists>a<k. (vs ! k)\<lparr> grad := 0, gen := 0 \<rparr>
                      = Value_new (max 0 (data (vs ! a))) [a] [if data (vs ! a) > 0 then 1 else 0])
      | ONeg \<Rightarrow> (\<exists>a<k. (vs ! k)\<lparr> grad := 0, gen := 0 \<rparr> = Value_new (- data (vs ! a)) [a] [- 1]))"
  by (cases p)
     (auto simp: created_by_def Let_def add_def mul_def pow_def log_v_def exp_v_def relu_def
        neg_def alloc_cell [OF assms] cong: conj_cong)

lemma edges_Value_new1: "edges_of (Value_new d [a] [l]) = [(a, l)]"
  by (simp add: edges_of_def Value_new_def array_get_def)

lemma edges_Value_new2: "edges_of (Value_new d [a, b] [l, m]) = [(a, l), (b, m)]"
  by (simp add: edges_of_def Value_new_def array_get_def)

lemma edges_Value_new0: "edges_of (Value_new d [] []) = []"
  by (simp add: edges_of_def Value_new_def array_get_def)

lemma edges_of_cell:
  assumes "v\<lparr> grad := 0, gen := 0 \<rparr> = w"
  shows "edges_of v = edges_of w"
  using cell_fields [OF assms] by (simp add: edges_of_def split: option.splits)

lemma created_by_leaf:
  assumes "created_by OLeaf vs k"
  shows "edges_of (vs ! k) = []"
  using assms edges_of_cell [of "vs ! k" "Value_new (data (vs ! k)) [] []"]
  by (simp add: created_by_def edges_Value_new0)

lemma created_by_unary:
  assumes "created_by p vs k" "k < length vs" "unary p"
  shows "\<exists>a<k. edges_of (vs ! k) = [(a, local_grad p (data (vs ! a)))]
             \<and> data (vs ! k) = op_apply p [data (vs ! a)]"
proof -
  let ?h = "\<lparr> cells = take k vs, gen_counter = 0 \<rparr>"
  let ?cell = "(vs ! k)\<lparr> grad := 0, gen := 0 \<rparr>"
  have kl: "k \<le> length vs" using assms(2) by simp
  have main: "\<exists>a<k. edges_of (vs ! k) = [(a, l (data (vs ! a)))] \<and> data (vs ! k) = f (data (vs ! a))"
    if "\<exists>a<k. ?cell = Value_new (f (data (take k vs ! a))) [a] [l (data (take k vs ! a))]" for f l
  proof -
    from that obtain a where a: "a < k" "?cell = Value_new (f (data (take k vs ! a))) [a] [l (data (take k vs ! a))]"
      by blast
    from a(1) have t: "take k vs ! a = vs ! a" by simp
    have "edges_of (vs ! k) = [(a, l (data (vs ! a)))]"
      using edges_of_cell [OF a(2)] unfolding t by (simp add: edges_Value_new1)
    moreover have "data (vs ! k) = f (data (vs ! a))"
      using cell_fields(6) [OF a(2)] unfolding t by (simp add: Value_new_def)
    ultimately show ?thesis using a(1) by blast
  qed
  show ?thesis
  proof (cases p)
    case (OAddN n)
    with assms(1) have "\<exists>a<k. ?cell = Value_new (data (take k vs ! a) + n) [a] [1]"
      by (simp add: created_by_def add_def alloc_cell [OF kl])
    from main [of "\<lambda>y. y + n" "\<lambda>y. 1", OF this] show ?thesis by (simp add: OAddN)
  next
    case (OMulN n)
    with assms(1) have "\<exists>a<k. ?cell = Value_new (data (take k vs ! a) * n) [a] [n]"
      by (simp add: created_by_def mul_def alloc_cell [OF kl])
    from main [of "\<lambda>y. y * n" "\<lambda>y. n", OF this] show ?thesis by (simp add: OMulN)
  next
    case (OPow e)
    with assms(1) have "\<exists>a<k. ?cell = Value_new (js_pow (data (take k vs ! a)) e) [a]
                                    [e * js_pow (data (take k vs ! a)) (e - 1)]"
      by (auto simp: created_by_alt [OF kl])
    from main [of "\<lambda>y. js_pow y e" "\<lambda>y. e * js_pow y (e - 1)", OF this] show ?thesis by (simp add: OPow)
  next
    case OLog
    with assms(1) have "\<exists>a<k. ?cell = Value_new (ln (data (take k vs ! a))) [a] [1 / data (take k vs ! a)]"
      by (auto simp: created_by_alt [OF kl])
    from main [of ln "\<lambda>y. 1 / y", OF this] show ?thesis by (simp add: OLog)
  next
    case OExp
    with assms(1) have "\<exists>a<k. ?cell = Value_new (exp (data (take k vs ! a))) [a] [exp (data (take k vs ! a))]"
      by (simp add: created_by_def exp_v_def alloc_cell [OF kl] Let_def)
    from main [of exp exp, OF this] show ?thesis by (simp add: OExp)
  next
    case ORelu
    with assms(1) have "\<exists>a<k. ?cell = Value_new (max 0 (data (take k vs ! a))) [a]
                                    [if data (take k vs ! a) > 0 then 1 else 0]"
      by (simp add: created_by_def relu_def alloc_cell [OF kl])
    from main [of "max 0" "\<lambda>y. if y > 0 then 1 else 0", OF this] show ?thesis by (simp add: ORelu)
  next
    case ONeg
    with assms(1) have "\<exists>a<k. ?cell = Value_new (- data (take k vs ! a)) [a] [- 1]"
      by (simp add: created_by_def neg_def alloc_cell [OF kl])
    from main [of uminus "\<lambda>y. - 1", OF this] show ?thesis by (simp add: ONeg)
  qed (use assms(3) in \<open>simp_all add: unary_def\<close>)
qed

lemma created_by_addv:
  assumes "created_by OAddV vs k" "k < length vs"
  shows "\<exists>a<k. \<exists>b<k. edges_of (vs ! k) = [(a, 1), (b, 1)]
             \<and> data (vs ! k) = data (vs ! a) + data (vs ! b)"
proof -
  have kl: "k \<le> length vs" using assms(2) by simp
  from assms(1) obtain a b where ab: "a < k" "b < k"
    "(vs ! k)\<lparr> grad := 0, gen := 0 \<rparr> = Value_new (data (take k vs ! a) + data (take k vs ! b)) [a, b] [1, 1]"
    by (auto simp: created_by_def add_def alloc_cell [OF kl])
  from ab(1,2) have t: "take k vs ! a = vs ! a" "take k vs ! b = vs ! b" by simp_all
  have "edges_of (vs ! k) = [(a, 1), (b, 1)]"
    using edges_of_cell [OF ab(3)] unfolding t by (simp add: edges_Value_new2)
  moreover have "data (vs ! k) = data (vs ! a) + data (vs ! b)"
    using cell_fields(6) [OF ab(3)] unfolding t by (simp add: Value_new_def)
  ultimately show ?thesis using ab(1,2) by blast
qed

lemma created_by_mulv:
  assumes "created_by OMulV vs k" "k < length vs"
  shows "\<exists>a<k. \<exists>b<k. edges_of (vs ! k) = [(a, data (vs ! b)), (b, data (vs ! a))]
             \<and> data (vs ! k) = data (vs ! a) * data (vs ! b)"
proof -
  have kl: "k \<le> length vs" using assms(2) by simp
  from assms(1) obtain a b where ab: "a < k" "b < k"
    "(vs ! k)\<lparr> grad := 0, gen := 0 \<rparr>
       = Value_new (data (take k vs ! a) * data (take k vs ! b)) [a, b]
           [data (take k vs ! b), data (take k vs ! a)]"
    by (auto simp: created_by_def mul_def alloc_cell [OF kl])
  from ab(1,2) have t: "take k vs ! a = vs ! a" "take k vs ! b = vs ! b" by simp_all
  have "edges_of (vs ! k) = [(a, data (vs ! b)), (b, data (vs ! a))]"
    using edges_of_cell [OF ab(3)] unfolding t by (simp add: edges_Value_new2)
  moreover have "data (vs ! k) = data (vs ! a) * data (vs ! b)"
    using cell_fields(6) [OF ab(3)] unfolding t by (simp add: Value_new_def)
  ultimately show ?thesis using ab(1,2) by blast
qed

lemma kids_Value_new:
  "kids_of (Value_new d [] ls) = []"
  "kids_of (Value_new d [a] ls) = [a]"
  "kids_of (Value_new d [a, b] ls) = [a, b]"
  "kids_of (Value_new d (a # b # c # r) ls) = [a]"
  by (simp_all add: kids_of_def edges_of_def Value_new_def array_get_def)

lemma kids_Value_new_subset: "set (kids_of (Value_new d cs ls)) \<subseteq> set cs"
proof (cases cs)
  case Nil
  then show ?thesis by (simp add: kids_Value_new)
next
  case c1: (Cons a r1)
  show ?thesis
  proof (cases r1)
    case Nil
    with c1 show ?thesis by (simp add: kids_Value_new)
  next
    case c2: (Cons b r2)
    show ?thesis
    proof (cases r2)
      case Nil
      with c1 c2 show ?thesis by (simp add: kids_Value_new)
    next
      case (Cons c r3)
      with c1 c2 show ?thesis by (simp add: kids_Value_new)
    qed
  qed
qed

lemma cell_wf:
  assumes "v\<lparr> grad := 0, gen := 0 \<rparr> = Value_new d cs ls" "\<forall>c\<in>set cs. c < k"
  shows "(nch v \<ge> 1 \<longrightarrow> c0 v \<noteq> None) \<and> (nch v = 2 \<longrightarrow> c1 v \<noteq> None)
         \<and> (\<forall>c\<in>set (kids_of v). c < k)"
proof -
  note f = cell_fields [OF assms(1)]
  have "kids_of v = kids_of (Value_new d cs ls)"
    using edges_of_cell [OF assms(1)] by (simp add: kids_of_def)
  with kids_Value_new_subset [of d cs ls] have "\<forall>c\<in>set (kids_of v). c < k"
    using assms(2) by auto
  moreover have "nch v \<ge> 1 \<longrightarrow> c0 v \<noteq> None" "nch v = 2 \<longrightarrow> c1 v \<noteq> None"
    unfolding f by (auto simp: Value_new_def array_get_def)
  ultimately show ?thesis by blast
qed

lemma created_by_Value_new:
  assumes "created_by p vs k" "k < length vs"
  shows "\<exists>d cs ls. (vs ! k)\<lparr> grad := 0, gen := 0 \<rparr> = Value_new d cs ls \<and> (\<forall>c\<in>set cs. c < k)"
proof -
  have kl: "k \<le> length vs" using assms(2) by simp
  have two: "\<exists>d cs ls. w = Value_new d cs ls \<and> (\<forall>c\<in>set cs. c < k)"
    if "\<exists>a<k. \<exists>b<k. w = Value_new (f a b) [a, b] (l a b)" for w f l
    using that by (metis insert_iff list.set(1) list.set(2) empty_iff)
  have one: "\<exists>d cs ls. w = Value_new d cs ls \<and> (\<forall>c\<in>set cs. c < k)"
    if "\<exists>a<k. w = Value_new (f a) [a] (l a)" for w f l
    using that by (metis insert_iff list.set(1) list.set(2) empty_iff)
  show ?thesis
  proof (cases p)
    case OLeaf
    with assms(1) have "(vs ! k)\<lparr> grad := 0, gen := 0 \<rparr> = Value_new (data (vs ! k)) [] []"
      by (simp add: created_by_def)
    then show ?thesis by (intro exI [of _ "data (vs ! k)"] exI [of _ "[]"]) simp
  next
    case OAddV
    with assms(1) show ?thesis
      by (intro two [of _ "\<lambda>a b. data (take k vs ! a) + data (take k vs ! b)" "\<lambda>a b. [1, 1]"])
         (simp add: created_by_def add_def alloc_cell [OF kl])
  next
    case (OAddN n)
    with assms(1) show ?thesis
      by (intro one [of _ "\<lambda>a. data (take k vs ! a) + n" "\<lambda>a. [1]"])
         (simp add: created_by_def add_def alloc_cell [OF kl])
  next
    case OMulV
    with assms(1) show ?thesis
      by (intro two [of _ "\<lambda>a b. data (take k vs ! a) * data (take k vs ! b)"
                        "\<lambda>a b. [data (take k vs ! b), data (take k vs ! a)]"])
         (simp add: created_by_def mul_def alloc_cell [OF kl])
  next
    case (OMulN n)
    with assms(1) show ?thesis
      by (intro one [of _ "\<lambda>a. data (take k vs ! a) * n" "\<lambda>a. [n]"])
         (simp add: created_by_def mul_def alloc_cell [OF kl])
  next
    case (OPow e)
    with assms(1) show ?thesis
      by (intro one [of _ "\<lambda>a. js_pow (data (take k vs ! a)) e"
                        "\<lambda>a. [e * js_pow (data (take k vs ! a)) (e - 1)]"])
         (auto simp: created_by_alt [OF kl])
  next
    case OLog
    with assms(1) show ?thesis
      by (intro one [of _ "\<lambda>a. ln (data (take k vs ! a))" "\<lambda>a. [1 / data (take k vs ! a)]"])
         (auto simp: created_by_alt [OF kl])
  next
    case OExp
    with assms(1) show ?thesis
      by (intro one [of _ "\<lambda>a. exp (data (take k vs ! a))" "\<lambda>a. [exp (data (take k vs ! a))]"])
         (simp add: created_by_def exp_v_def alloc_cell [OF kl] Let_def)
  next
    case ORelu
    with assms(1) show ?thesis
      by (intro one [of _ "\<lambda>a. max 0 (data (take k vs ! a))"
                        "\<lambda>a. [if data (take k vs ! a) > 0 then 1 else 0]"])
         (simp add: created_by_def relu_def alloc_cell [OF kl])
  next
    case ONeg
    with assms(1) show ?thesis
      by (intro one [of _ "\<lambda>a. - data (take k vs ! a)" "\<lambda>a. [- 1]"])
         (simp add: created_by_def neg_def alloc_cell [OF kl])
  qed
qed

lemma built_by_wf:
  assumes "built_by ps vs"
  shows "wf_heap vs"
  unfolding wf_heap_def
proof (intro allI impI)
  fix v assume v: "v < length vs"
  with assms have "created_by (ps ! v) vs v" by (simp add: built_by_def)
  from created_by_Value_new [OF this v] obtain d cs ls where
    "(vs ! v)\<lparr> grad := 0, gen := 0 \<rparr> = Value_new d cs ls" "\<forall>c\<in>set cs. c < v" by blast
  from cell_wf [OF this]
  show "(1 \<le> nch (vs ! v) \<longrightarrow> c0 (vs ! v) \<noteq> None) \<and> (nch (vs ! v) = 2 \<longrightarrow> c1 (vs ! v) \<noteq> None)
        \<and> (\<forall>c\<in>set (kids_of (vs ! v)). c < v)" .
qed

lemma relu_deriv:
  assumes "y \<noteq> (0::real)"
  shows "((\<lambda>x. max 0 x) has_real_derivative (if y > 0 then 1 else 0)) (at y)"
proof (cases "y > 0")
  case True
  have "((\<lambda>x. x) has_real_derivative 1) (at y)" by (rule DERIV_ident)
  then have "((\<lambda>x. max 0 x) has_real_derivative 1) (at y)"
    by (rule has_field_derivative_transform_within_open [where S = "{0<..}"]) (use True in auto)
  with True show ?thesis by simp
next
  case False
  with assms have y: "y < 0" by simp
  have "((\<lambda>x. 0) has_real_derivative 0) (at y)" by (rule DERIV_const)
  then have "((\<lambda>x. max 0 x) has_real_derivative 0) (at y)"
    by (rule has_field_derivative_transform_within_open [where S = "{..<0}"]) (use y in auto)
  with False show ?thesis by simp
qed

lemma pow_deriv:
  assumes "if e \<in> \<int> then 1 \<le> e \<or> y \<noteq> 0 else 0 < y"
  shows "((\<lambda>x. js_pow x e) has_real_derivative e * js_pow y (e - 1)) (at y)"
proof (cases "e \<in> \<int>")
  case True
  then obtain n :: int where n: "e = of_int n" by (auto elim: Ints_cases)
  have e1: "e - 1 \<in> \<int>" using True by simp
  have f: "\<lfloor>e\<rfloor> = n" "\<lfloor>e - 1\<rfloor> = n - 1" by (simp_all add: n)
  from assms True n have c: "n \<ge> 0 \<or> y \<noteq> 0" by auto
  have "((\<lambda>x. x powi n) has_real_derivative of_int n * y powi (n - 1) * 1) (at y)"
    by (rule DERIV_power_int [OF DERIV_ident c])
  then show ?thesis using True e1 by (simp add: js_pow_def f n)
next
  case False
  then have e1: "e - 1 \<notin> \<int>" by (metis Ints_1 Ints_add diff_add_cancel)
  from assms False have "0 < y" by simp
  from has_real_derivative_powr [OF this, of e] show ?thesis
    using False e1 by (simp add: js_pow_def)
qed

lemma unary_deriv:
  assumes "unary p" "smooth_at p y"
  shows "((\<lambda>x. op_apply p [x]) has_real_derivative local_grad p y) (at y)"
proof (cases p)
  case (OPow e)
  with assms(2) show ?thesis using pow_deriv [of e y] by (simp add: smooth_at_def)
next
  case OLog
  with assms(2) show ?thesis using DERIV_ln_divide [of y] by (simp add: smooth_at_def)
next
  case ORelu
  with assms(2) show ?thesis using relu_deriv [of y] by (simp add: smooth_at_def)
qed (use assms(1) in \<open>auto simp: unary_def intro!: derivative_eq_intros\<close>)

lemma built_by_cases [consumes 2, case_names leaf un addv mulv]:
  assumes "built_by ps vs" "k < length vs"
  obtains (leaf) "ps ! k = OLeaf" "edges_of (vs ! k) = []"
  | (un) a where "unary (ps ! k)" "a < k"
      "edges_of (vs ! k) = [(a, local_grad (ps ! k) (data (vs ! a)))]"
      "data (vs ! k) = op_apply (ps ! k) [data (vs ! a)]"
  | (addv) a b where "ps ! k = OAddV" "a < k" "b < k" "edges_of (vs ! k) = [(a, 1), (b, 1)]"
      "data (vs ! k) = data (vs ! a) + data (vs ! b)"
  | (mulv) a b where "ps ! k = OMulV" "a < k" "b < k"
      "edges_of (vs ! k) = [(a, data (vs ! b)), (b, data (vs ! a))]"
      "data (vs ! k) = data (vs ! a) * data (vs ! b)"
proof -
  from assms have c: "created_by (ps ! k) vs k" by (simp add: built_by_def)
  consider "ps ! k = OLeaf" | "ps ! k = OAddV" | "ps ! k = OMulV" | "unary (ps ! k)"
    by (auto simp: unary_def)
  then show ?thesis
  proof cases
    case 1
    with c created_by_leaf [of vs k] show ?thesis by (intro leaf) simp_all
  next
    case 2
    with c created_by_addv [OF _ assms(2)] show ?thesis by (metis addv)
  next
    case 3
    with c created_by_mulv [OF _ assms(2)] show ?thesis by (metis mulv)
  next
    case 4
    with created_by_unary [OF c assms(2)] show ?thesis by (metis un)
  qed
qed

lemma eval_at_unfold:
  assumes "k \<noteq> n"
  shows "edges_of (vs ! k) = [] \<Longrightarrow> ps ! k = OLeaf \<Longrightarrow> eval_at ps vs n x k = data (vs ! k)"
    and "edges_of (vs ! k) = [(a, l)] \<Longrightarrow> unary (ps ! k) \<Longrightarrow> a < k
         \<Longrightarrow> eval_at ps vs n x k = op_apply (ps ! k) [eval_at ps vs n x a]"
    and "edges_of (vs ! k) = [(a, l), (b, m)] \<Longrightarrow> ps ! k = OAddV \<Longrightarrow> a < k \<Longrightarrow> b < k
         \<Longrightarrow> eval_at ps vs n x k = eval_at ps vs n x a + eval_at ps vs n x b"
    and "edges_of (vs ! k) = [(a, l), (b, m)] \<Longrightarrow> ps ! k = OMulV \<Longrightarrow> a < k \<Longrightarrow> b < k
         \<Longrightarrow> eval_at ps vs n x k = eval_at ps vs n x a * eval_at ps vs n x b"
  using assms by (subst eval_at.simps, simp add: kids_of_def unary_def)+

lemma eval_at_self:
  assumes "built_by ps vs"
  shows "k < length vs \<Longrightarrow> eval_at ps vs n (data (vs ! n)) k = data (vs ! k)"
proof (induction k rule: less_induct)
  case (less k)
  show ?case
  proof (cases "k = n")
    case True
    then show ?thesis by (subst eval_at.simps) simp
  next
    case False
    from assms less.prems show ?thesis
    proof (cases rule: built_by_cases)
      case leaf
      then show ?thesis by (simp add: eval_at_unfold(1) [OF False])
    next
      case (un a)
      with less have "eval_at ps vs n (data (vs ! n)) a = data (vs ! a)" by simp
      with un show ?thesis by (simp add: eval_at_unfold(2) [OF False un(3,1,2)])
    next
      case (addv a b)
      with less have "eval_at ps vs n (data (vs ! n)) a = data (vs ! a)"
        "eval_at ps vs n (data (vs ! n)) b = data (vs ! b)" by simp_all
      with addv show ?thesis by (simp add: eval_at_unfold(3) [OF False addv(4,1,2,3)])
    next
      case (mulv a b)
      with less have "eval_at ps vs n (data (vs ! n)) a = data (vs ! a)"
        "eval_at ps vs n (data (vs ! n)) b = data (vs ! b)" by simp_all
      with mulv show ?thesis by (simp add: eval_at_unfold(4) [OF False mulv(4,1,2,3)])
    qed
  qed
qed

lemma eval_at_deriv:
  assumes bb: "built_by ps vs" and sm: "smooth ps vs"
  shows "k < length vs \<Longrightarrow>
    ((\<lambda>x. eval_at ps vs n x k) has_real_derivative deriv vs n k) (at (data (vs ! n)))"
proof (induction k rule: less_induct)
  case (less k)
  note wf = built_by_wf [OF bb]
  show ?case
  proof (cases "k = n")
    case True
    have "(\<lambda>x. eval_at ps vs n x k) = (\<lambda>x. x)" using True by (subst eval_at.simps) simp
    then show ?thesis using True by (simp add: deriv_self)
  next
    case False
    note du = deriv_unfold_wf [OF wf less.prems False]
    from bb less.prems show ?thesis
    proof (cases rule: built_by_cases)
      case leaf
      have "(\<lambda>x. eval_at ps vs n x k) = (\<lambda>x. data (vs ! k))"
        using leaf by (simp add: eval_at_unfold(1) [OF False])
      moreover have "deriv vs n k = 0" using leaf by (simp add: du)
      ultimately show ?thesis by simp
    next
      case (un a)
      have f: "(\<lambda>x. eval_at ps vs n x k) = (\<lambda>x. op_apply (ps ! k) [eval_at ps vs n x a])"
        by (simp add: eval_at_unfold(2) [OF False un(3,1,2)])
      from un less have al: "a < length vs" by simp
      from less.IH [OF un(2) al]
      have da: "((\<lambda>x. eval_at ps vs n x a) has_real_derivative deriv vs n a) (at (data (vs ! n)))" .
      have "a \<in> set (kids_of (vs ! k))" using un(3) by (simp add: kids_of_def)
      with sm less.prems have "smooth_at (ps ! k) (data (vs ! a))" by (simp add: smooth_def)
      from unary_deriv [OF un(1) this]
      have "((\<lambda>y. op_apply (ps ! k) [y]) has_real_derivative local_grad (ps ! k) (data (vs ! a)))
              (at (eval_at ps vs n (data (vs ! n)) a))"
        by (simp add: eval_at_self [OF bb al])
      from DERIV_chain2 [OF this da]
      show ?thesis unfolding f by (simp add: du un(3))
    next
      case (addv a b)
      have f: "(\<lambda>x. eval_at ps vs n x k) = (\<lambda>x. eval_at ps vs n x a + eval_at ps vs n x b)"
        by (simp add: eval_at_unfold(3) [OF False addv(4,1,2,3)])
      from addv less have al: "a < length vs" "b < length vs" by simp_all
      from less.IH [OF addv(2) al(1)] less.IH [OF addv(3) al(2)]
      have "((\<lambda>x. eval_at ps vs n x a + eval_at ps vs n x b) has_real_derivative
               deriv vs n a + deriv vs n b) (at (data (vs ! n)))"
        by (rule DERIV_add)
      then show ?thesis unfolding f by (simp add: du addv(4))
    next
      case (mulv a b)
      have f: "(\<lambda>x. eval_at ps vs n x k) = (\<lambda>x. eval_at ps vs n x a * eval_at ps vs n x b)"
        by (simp add: eval_at_unfold(4) [OF False mulv(4,1,2,3)])
      from mulv less have al: "a < length vs" "b < length vs" by simp_all
      from less.IH [OF mulv(2) al(1)] less.IH [OF mulv(3) al(2)]
      have "((\<lambda>x. eval_at ps vs n x a * eval_at ps vs n x b) has_real_derivative
               deriv vs n a * eval_at ps vs n (data (vs ! n)) b
               + deriv vs n b * eval_at ps vs n (data (vs ! n)) a) (at (data (vs ! n)))"
        by (rule DERIV_mult)
      then show ?thesis unfolding f
        by (simp add: du mulv(4) eval_at_self [OF bb al(1)] eval_at_self [OF bb al(2)] mult.commute)
    qed
  qed
qed

lemma created_by_prefix:
  assumes "k < length vs"
  shows "created_by p (vs @ ws) k = created_by p vs k"
  using assms by (simp add: created_by_def nth_append Let_def split: vop.splits)

lemma Value_new_clean: "(Value_new d cs ls)\<lparr> grad := 0, gen := 0 \<rparr> = Value_new d cs ls"
  by (simp add: Value_new_def)

lemma built_by_snoc:
  assumes "built_by ps vs" "created_by p (vs @ [w]) (length vs)"
  shows "built_by (ps @ [p]) (vs @ [w])"
  unfolding built_by_def
proof (intro conjI allI impI)
  from assms(1) show "length (ps @ [p]) = length (vs @ [w])" by (simp add: built_by_def)
  fix k assume "k < length (vs @ [w])"
  then consider "k < length vs" | "k = length vs" by fastforce
  then show "created_by ((ps @ [p]) ! k) (vs @ [w]) k"
  proof cases
    case 1
    with assms(1) show ?thesis by (simp add: built_by_def nth_append created_by_prefix)
  next
    case 2
    with assms show ?thesis by (simp add: built_by_def nth_append)
  qed
qed

lemma gens_ok_alloc:
  assumes "gens_ok h"
  shows "gens_ok (fst (alloc h (Value_new d cs ls)))"
  using assms by (auto simp: gens_ok_def alloc_def nth_append Value_new_def)

text \<open>
  Every operation extends a heap built by operations to one built by operations: it
  appends the cell the operation describes, with gradient 0, and returns its address.
\<close>

lemma leaf_built_by:
  assumes "built_by ps (cells h)"
  shows "built_by (ps @ [OLeaf]) (cells (fst (alloc h (Value_new d [] []))))"
  using assms
  by (auto simp: alloc_def created_by_def Value_new_clean Value_new_def intro!: built_by_snoc)

lemma op1_created:
  assumes "a < length vs"
  shows "created_by (OAddN n) (cells (fst (add \<lparr> cells = vs, gen_counter = g \<rparr> a (Num n)))) (length vs)"
    and "created_by (OMulN n) (cells (fst (mul \<lparr> cells = vs, gen_counter = g \<rparr> a (Num n)))) (length vs)"
    and "pow \<lparr> cells = vs, gen_counter = g \<rparr> a e = Some r
         \<Longrightarrow> created_by (OPow e) (cells (fst r)) (length vs)"
    and "log_v \<lparr> cells = vs, gen_counter = g \<rparr> a = Some r
         \<Longrightarrow> created_by OLog (cells (fst r)) (length vs)"
    and "created_by OExp (cells (fst (exp_v \<lparr> cells = vs, gen_counter = g \<rparr> a))) (length vs)"
    and "created_by ORelu (cells (fst (relu \<lparr> cells = vs, gen_counter = g \<rparr> a))) (length vs)"
    and "created_by ONeg (cells (fst (neg \<lparr> cells = vs, gen_counter = g \<rparr> a))) (length vs)"
  using assms
  by (auto simp: created_by_def add_def mul_def pow_def log_v_def exp_v_def relu_def neg_def
        alloc_def Let_def Value_new_clean split: if_splits)

lemma op2_created:
  assumes "a < length vs" "b < length vs"
  shows "created_by OAddV (cells (fst (add \<lparr> cells = vs, gen_counter = g \<rparr> a (Val b)))) (length vs)"
    and "created_by OMulV (cells (fst (mul \<lparr> cells = vs, gen_counter = g \<rparr> a (Val b)))) (length vs)"
  using assms
  by (simp_all add: created_by_def add_def mul_def alloc_def Value_new_clean) blast+

lemma heap_eta: "\<lparr> cells = cells h, gen_counter = gen_counter h \<rparr> = (h :: heap)"
  by simp

lemma ops_append:
  "cells (fst (add h a other)) = cells h @ [cells (fst (add h a other)) ! length (cells h)]"
  "cells (fst (mul h a other)) = cells h @ [cells (fst (mul h a other)) ! length (cells h)]"
  "pow h a e = Some r \<Longrightarrow> cells (fst r) = cells h @ [cells (fst r) ! length (cells h)]"
  "log_v h a = Some r \<Longrightarrow> cells (fst r) = cells h @ [cells (fst r) ! length (cells h)]"
  "cells (fst (exp_v h a)) = cells h @ [cells (fst (exp_v h a)) ! length (cells h)]"
  "cells (fst (relu h a)) = cells h @ [cells (fst (relu h a)) ! length (cells h)]"
  "cells (fst (neg h a)) = cells h @ [cells (fst (neg h a)) ! length (cells h)]"
  by (auto simp: add_def mul_def pow_def log_v_def exp_v_def relu_def neg_def alloc_def Let_def
        split: operand.splits if_splits)

lemma ops_result:
  "snd (add h a other) = length (cells h)" "gen_counter (fst (add h a other)) = gen_counter h"
  "snd (mul h a other) = length (cells h)" "gen_counter (fst (mul h a other)) = gen_counter h"
  "pow h a e = Some r \<Longrightarrow> snd r = length (cells h)"
  "pow h a e = Some r \<Longrightarrow> gen_counter (fst r) = gen_counter h"
  "log_v h a = Some r \<Longrightarrow> snd r = length (cells h)"
  "log_v h a = Some r \<Longrightarrow> gen_counter (fst r) = gen_counter h"
  "snd (exp_v h a) = length (cells h)" "gen_counter (fst (exp_v h a)) = gen_counter h"
  "snd (relu h a) = length (cells h)" "gen_counter (fst (relu h a)) = gen_counter h"
  "snd (neg h a) = length (cells h)" "gen_counter (fst (neg h a)) = gen_counter h"
  by (auto simp: add_def mul_def pow_def log_v_def exp_v_def relu_def neg_def alloc_def Let_def
        split: operand.splits if_splits)

lemma built_by_op:
  assumes "built_by ps (cells h)" "cells h' = cells h @ [w]"
    and "created_by p (cells h') (length (cells h))"
  shows "built_by (ps @ [p]) (cells h')"
  using built_by_snoc [OF assms(1), of p w] assms(2,3) by simp

lemma ops_built_by:
  assumes "built_by ps (cells h)" "a < length (cells h)"
  shows "b < length (cells h) \<Longrightarrow> built_by (ps @ [OAddV]) (cells (fst (add h a (Val b))))"
    and "built_by (ps @ [OAddN n]) (cells (fst (add h a (Num n))))"
    and "b < length (cells h) \<Longrightarrow> built_by (ps @ [OMulV]) (cells (fst (mul h a (Val b))))"
    and "built_by (ps @ [OMulN n]) (cells (fst (mul h a (Num n))))"
    and "pow h a e = Some r \<Longrightarrow> built_by (ps @ [OPow e]) (cells (fst r))"
    and "log_v h a = Some r \<Longrightarrow> built_by (ps @ [OLog]) (cells (fst r))"
    and "built_by (ps @ [OExp]) (cells (fst (exp_v h a)))"
    and "built_by (ps @ [ORelu]) (cells (fst (relu h a)))"
    and "built_by (ps @ [ONeg]) (cells (fst (neg h a)))"
proof -
  note c1 = op1_created [OF assms(2), where g = "gen_counter h", unfolded heap_eta]
  show "b < length (cells h) \<Longrightarrow> built_by (ps @ [OAddV]) (cells (fst (add h a (Val b))))"
    using op2_created(1) [OF assms(2), where b = b and g = "gen_counter h", unfolded heap_eta]
    by (rule built_by_op [OF assms(1) ops_append(1)])
  show "b < length (cells h) \<Longrightarrow> built_by (ps @ [OMulV]) (cells (fst (mul h a (Val b))))"
    using op2_created(2) [OF assms(2), where b = b and g = "gen_counter h", unfolded heap_eta]
    by (rule built_by_op [OF assms(1) ops_append(2)])
  show "built_by (ps @ [OAddN n]) (cells (fst (add h a (Num n))))"
    by (rule built_by_op [OF assms(1) ops_append(1) c1(1)])
  show "built_by (ps @ [OMulN n]) (cells (fst (mul h a (Num n))))"
    by (rule built_by_op [OF assms(1) ops_append(2) c1(2)])
  show "built_by (ps @ [OPow e]) (cells (fst r))" if "pow h a e = Some r"
    by (rule built_by_op [OF assms(1) ops_append(3) [OF that] c1(3) [OF that]])
  show "built_by (ps @ [OLog]) (cells (fst r))" if "log_v h a = Some r"
    by (rule built_by_op [OF assms(1) ops_append(4) [OF that] c1(4) [OF that]])
  show "built_by (ps @ [OExp]) (cells (fst (exp_v h a)))"
    by (rule built_by_op [OF assms(1) ops_append(5) c1(5)])
  show "built_by (ps @ [ORelu]) (cells (fst (relu h a)))"
    by (rule built_by_op [OF assms(1) ops_append(6) c1(6)])
  show "built_by (ps @ [ONeg]) (cells (fst (neg h a)))"
    by (rule built_by_op [OF assms(1) ops_append(7) c1(7)])
qed

lemma sub_div_built_by:
  assumes "built_by ps (cells h)" "a < length (cells h)"
  shows "b < length (cells h) \<Longrightarrow> built_by (ps @ [ONeg, OAddV]) (cells (fst (sub h a (Val b))))"
    and "built_by (ps @ [OAddN (- n)]) (cells (fst (sub h a (Num n))))"
    and "b < length (cells h) \<Longrightarrow> div_v h a (Val b) = Some r
         \<Longrightarrow> built_by (ps @ [OPow (- 1), OMulV]) (cells (fst r))"
    and "div_v h a (Num n) = Some r \<Longrightarrow> built_by (ps @ [OMulN (1 / n)]) (cells (fst r))"
proof -
  show "built_by (ps @ [OAddN (- n)]) (cells (fst (sub h a (Num n))))"
    using ops_built_by(2) [OF assms] by (simp add: sub_def)
  show "built_by (ps @ [OMulN (1 / n)]) (cells (fst r))" if "div_v h a (Num n) = Some r"
    using ops_built_by(4) [OF assms, of "1 / n"] that by (auto simp: div_v_def split: if_splits)
  show "built_by (ps @ [ONeg, OAddV]) (cells (fst (sub h a (Val b))))" if b: "b < length (cells h)"
  proof -
    obtain h1 nb where n: "neg h b = (h1, nb)" by (cases "neg h b")
    from ops_built_by(9) [OF assms(1) b] n have b1: "built_by (ps @ [ONeg]) (cells h1)" by simp
    from ops_append(7) [of h b] ops_result(13) [of h b] n
    have l: "length (cells h1) = length (cells h) + 1" "nb = length (cells h)"
      by (simp_all, metis length_append_singleton Suc_eq_plus1)
    with assms(2) have "a < length (cells h1)" "nb < length (cells h1)" by simp_all
    from ops_built_by(1) [OF b1 this] show ?thesis by (simp add: sub_def n)
  qed
  show "built_by (ps @ [OPow (- 1), OMulV]) (cells (fst r))"
    if b: "b < length (cells h)" and d: "div_v h a (Val b) = Some r"
  proof -
    from d obtain h1 pb where n: "pow h b (- 1) = Some (h1, pb)" and r: "r = mul h1 a (Val pb)"
      by (auto simp: div_v_def split: option.splits)
    from ops_built_by(5) [OF assms(1) b n] have b1: "built_by (ps @ [OPow (- 1)]) (cells h1)" by simp
    from ops_append(3) [OF n] ops_result(5) [OF n]
    have l: "length (cells h1) = length (cells h) + 1" "pb = length (cells h)"
      by (simp_all, metis length_append_singleton Suc_eq_plus1)
    with assms(2) have "a < length (cells h1)" "pb < length (cells h1)" by simp_all
    from ops_built_by(3) [OF b1 this] show ?thesis by (simp add: r)
  qed
qed

lemma same_shape_created_by:
  assumes "same_shape vs0 vs" "k < length vs0" "created_by p vs0 k"
  shows "created_by p vs k"
proof -
  from assms(1) have l: "length vs = length vs0" by (simp add: same_shape_def)
  have d: "data (vs ! a) = data (vs0 ! a)" if "a < k" for a
    using that assms(2) same_shape_fields(6) [OF assms(1), of a] by simp
  from assms(1,2) have e: "vs ! k = (vs0 ! k)\<lparr> grad := grad (vs ! k), gen := gen (vs ! k) \<rparr>"
    by (simp add: same_shape_def)
  have c: "(vs ! k)\<lparr> grad := 0, gen := 0 \<rparr> = (vs0 ! k)\<lparr> grad := 0, gen := 0 \<rparr>"
    by (subst e) simp
  have kl: "k \<le> length vs" "k \<le> length vs0" using assms(2) l by simp_all
  have dk: "data (vs ! k) = data (vs0 ! k)" by (rule same_shape_fields(6) [OF assms(1,2)])
  from assms(3) show ?thesis
    unfolding created_by_alt [OF kl(1)] created_by_alt [OF kl(2)] c dk
    by (cases p) (simp_all add: d cong: conj_cong)
qed

lemma same_shape_built_by:
  assumes "same_shape vs0 vs" "built_by ps vs0"
  shows "built_by ps vs"
  using assms same_shape_created_by [OF assms(1)]
  by (auto simp: built_by_def same_shape_def)

lemma example_heap_from_ops:
  "(let h0 = \<lparr> cells = [], gen_counter = 0 \<rparr>;
        (h1, x) = alloc h0 (Value_new 2 [] []);
        (h2, y) = mul h1 x (Val x)
    in case backward 2 y h2 of
         Inl e \<Rightarrow> None
       | Inr h3 \<Rightarrow> (let (h4, z) = add (zero_grads h3) y (Val x) in Some (h4, x, y, z)))
   = Some (example_heap, 0, 1, 2)"
  by (simp add: alloc_def Value_new_def array_get_def mul_def add_def backward_def
        backward_step_def zero_grads_def example_heap_def numeral_2_eq_2)

lemma example_heap_facts:
  "built_by example_ops (cells example_heap)" "gens_ok example_heap"
  "smooth example_ops (cells example_heap)"
  "length (cells example_heap) = 3"
proof -
  have "\<forall>k<3. created_by (example_ops ! k) (cells example_heap) k"
    by (simp add: All_less_Suc numeral_3_eq_3 created_by_def example_ops_def example_heap_def
          mul_def add_def alloc_def Value_new_def array_get_def)
  then show "built_by example_ops (cells example_heap)"
    by (simp add: built_by_def example_ops_def example_heap_def)
  show "gens_ok example_heap"
    by (simp add: gens_ok_def example_heap_def All_less_Suc numeral_3_eq_3)
  show "smooth example_ops (cells example_heap)"
    by (simp add: smooth_def smooth_at_def example_ops_def example_heap_def All_less_Suc
          numeral_3_eq_3)
  show "length (cells example_heap) = 3" by (simp add: example_heap_def)
qed


lemma example_reaches:
  "reaches (cells example_heap) 2 n \<longleftrightarrow> n = 0 \<or> n = 1 \<or> n = 2"
proof
  assume "reaches (cells example_heap) 2 n"
  from reaches_le [OF built_by_wf [OF example_heap_facts(1)] this] example_heap_facts(4)
  show "n = 0 \<or> n = 1 \<or> n = 2" by auto
next
  have k: "kids_of (cells example_heap ! 2) = [1, 0]"
    by (simp add: example_heap_def kids_of_def edges_of_def)
  assume "n = 0 \<or> n = 1 \<or> n = 2"
  then show "reaches (cells example_heap) 2 n"
    using reaches_refl [of "cells example_heap" 2]
      reaches_step [of 1 "cells example_heap" 2 1, OF _ reaches_refl]
      reaches_step [of 0 "cells example_heap" 2 0, OF _ reaches_refl]
    by (auto simp: k)
qed


section \<open>Forward pass: properties\<close>

lemma foldl_err_append:
  "foldl_err f s (xs @ ys) = bind_err (foldl_err f s xs) (\<lambda>s'. foldl_err f s' ys)"
  by (induction xs arbitrary: s) (auto simp: bind_err_def split: sum.splits)

lemma map_err_total:
  assumes "\<forall>x\<in>set xs. \<exists>y. f x = Inr y"
  shows "\<exists>ys. map_err f xs = Inr ys \<and> length ys = length xs"
  using assms
proof (induction xs)
  case Nil
  then show ?case by simp
next
  case (Cons x xs)
  then obtain y ys where "f x = Inr y" "map_err f xs = Inr ys" "length ys = length xs" by auto
  then show ?case by simp
qed

lemma linear_Inr:
  assumes "\<forall>wo\<in>set w. wo \<noteq> []"
  shows "\<exists>y. linear_gpt x w = Inr y \<and> length y = length w"
  unfolding linear_gpt_def
  by (rule map_err_total) (use assms in \<open>auto simp: vsum_nonempty\<close>)

lemma linear_matrix_ok:
  assumes "matrix_ok nout nin w" "0 < nin"
  shows "\<exists>y. linear_gpt x w = Inr y \<and> length y = nout"
proof -
  from assms have "\<forall>wo\<in>set w. wo \<noteq> []" "length w = nout" by (auto simp: matrix_ok_def)
  with linear_Inr [of w x] show ?thesis by auto
qed

lemma rmsnorm_Inr:
  assumes "x \<noteq> []"
  shows "\<exists>y. rmsnorm x = Inr y \<and> length y = length x"
  using assms by (simp add: rmsnorm_def vsum_nonempty Let_def)

lemma forward_head_Inr:
  assumes "0 < headDim" "h * headDim + headDim \<le> length q" "keys_li \<noteq> []"
    and "length keys_li \<le> length values_li"
  shows "\<exists>outs row. forward_head headDim c li q keys_li values_li (xAttn, ad) h
            = Inr (xAttn @ outs,
                   if c then ad @ [\<lparr> layer = li, head = h, weights = [row] \<rparr>] else ad)
          \<and> length outs = headDim \<and> length row = length keys_li \<and> sum_list row = 1
          \<and> (\<forall>w\<in>set row. 0 \<le> w \<and> w \<le> 1)"
proof -
  define qH where "qH = take headDim (drop (h * headDim) q)"
  define kH where "kH = map (\<lambda>ki. take headDim (drop (h * headDim) ki)) keys_li"
  define vH where "vH = map (\<lambda>vi. take headDim (drop (h * headDim) vi)) values_li"
  define scale where "scale = 1 / js_pow (real headDim) (1 / 2)"
  define f where "f = (\<lambda>kt. bind_err (vsum (map (\<lambda>j. qH ! j * kt ! j) [0..<length qH]))
                                    (\<lambda>d. Inr (d * scale)))"
  have q: "qH \<noteq> []" using assms(1,2) by (auto simp: qH_def)
  have lk: "length kH = length keys_li" and lv: "length vH = length values_li"
    by (simp_all add: kH_def vH_def)
  have "\<forall>kt\<in>set kH. \<exists>y. f kt = Inr y"
    using q by (simp add: f_def vsum_nonempty)
  from map_err_total [OF this]
  obtain attnLogits where al: "map_err f kH = Inr attnLogits" "length attnLogits = length kH"
    by auto
  from al(2) lk assms(3) have ne: "attnLogits \<noteq> []" by auto
  from softmax_nonempty [OF ne] obtain row where row: "softmax attnLogits = Inr row" by auto
  have rl: "length row = length attnLogits" by (rule softmax_length [OF row])
  have s1: "sum_list row = 1" by (rule softmax_sum_1 [OF ne row(1)])
  have rne: "row \<noteq> []" using rl ne by auto
  define g where "g = (\<lambda>j. bind_err (map_err (\<lambda>t. bind_err (deref vH t) (\<lambda>vt. Inr (row ! t * vt ! j)))
                            [0..<length row]) vsum)"
  have "\<forall>j\<in>set [0..<headDim]. \<exists>y. g j = Inr y"
  proof
    fix j assume "j \<in> set [0..<headDim]"
    have "\<forall>t\<in>set [0..<length row]. \<exists>y. bind_err (deref vH t) (\<lambda>vt. Inr (row ! t * vt ! j)) = Inr y"
      using rl al(2) lk lv assms(4) by (simp add: deref_def)
    from map_err_total [OF this]
    obtain ys where "map_err (\<lambda>t. bind_err (deref vH t) (\<lambda>vt. Inr (row ! t * vt ! j))) [0..<length row] = Inr ys"
       "length ys = length [0..<length row]" by blast
    moreover from this rne have "ys \<noteq> []" by auto
    ultimately show "\<exists>y. g j = Inr y"
      by (simp add: g_def vsum_nonempty)
  qed
  from map_err_total [OF this]
  obtain outs where outs: "map_err g [0..<headDim] = Inr outs" "length outs = length [0..<headDim]"
    by blast
  have "forward_head headDim c li q keys_li values_li (xAttn, ad) h
            = Inr (xAttn @ outs,
                   if c then ad @ [\<lparr> layer = li, head = h, weights = [row] \<rparr>] else ad)"
    unfolding forward_head_def Let_def qH_def [symmetric] kH_def [symmetric] vH_def [symmetric]
      scale_def [symmetric]
    by (simp add: f_def [symmetric] al(1) row g_def [symmetric] outs(1))
  moreover have "\<forall>w\<in>set row. 0 \<le> w \<and> w \<le> 1"
    by (rule softmax_range [OF ne row])
  ultimately show ?thesis using outs(2) rl al(2) lk s1 by auto
qed

lemma forward_heads_Inr:
  assumes "0 < headDim" "n * headDim \<le> length q" "keys_li \<noteq> []"
    and "length keys_li \<le> length values_li"
  shows "\<exists>xAttn rows. foldl_err (forward_head headDim True li q keys_li values_li) ([], ad) [0..<n]
            = Inr (xAttn, ad @ rows)
          \<and> length xAttn = n * headDim
          \<and> map (\<lambda>a. (layer a, head a)) rows = map (\<lambda>h. (li, h)) [0..<n]
          \<and> (\<forall>a\<in>set rows. row_ok (length keys_li) a)"
  using assms(2)
proof (induction n)
  case 0
  then show ?case by simp
next
  case (Suc n)
  then obtain xAttn rows where
    IH: "foldl_err (forward_head headDim True li q keys_li values_li) ([], ad) [0..<n] = Inr (xAttn, ad @ rows)"
      "length xAttn = n * headDim" "map (\<lambda>a. (layer a, head a)) rows = map (\<lambda>h. (li, h)) [0..<n]"
      "\<forall>a\<in>set rows. row_ok (length keys_li) a" by auto
  from Suc.prems have "n * headDim + headDim \<le> length q" by simp
  from forward_head_Inr [OF assms(1) this assms(3,4), of True li xAttn "ad @ rows"]
  obtain outs row where h: "forward_head headDim True li q keys_li values_li (xAttn, ad @ rows) n
            = Inr (xAttn @ outs, (ad @ rows) @ [\<lparr> layer = li, head = n, weights = [row] \<rparr>])"
     "length outs = headDim" "length row = length keys_li" "sum_list row = 1"
     "\<forall>w\<in>set row. 0 \<le> w \<and> w \<le> 1" by auto
  let ?a = "\<lparr> layer = li, head = n, weights = [row] \<rparr>"
  have r: "row_ok (length keys_li) ?a" using h(3,4,5) by (simp add: row_ok_def)
  have "foldl_err (forward_head headDim True li q keys_li values_li) ([], ad) [0..<Suc n]
        = Inr (xAttn @ outs, ad @ (rows @ [?a]))"
    by (simp add: foldl_err_append IH(1) h(1))
  moreover have "length (xAttn @ outs) = Suc n * headDim" using IH(2) h(2) by simp
  moreover have "map (\<lambda>a. (layer a, head a)) (rows @ [?a]) = map (\<lambda>h. (li, h)) [0..<Suc n]"
    using IH(3) by simp
  moreover have "\<forall>a\<in>set (rows @ [?a]). row_ok (length keys_li) a" using IH(4) r by simp
  ultimately show ?case by blast
qed

lemma forward_layer_Inr:
  assumes "shape_ok cfg sd" "length x = nEmbd cfg" "li < nLayer cfg"
    and "li < length keys" "li < length values" "length (values ! li) = length (keys ! li)"
  shows "\<exists>x' k v rows. forward_layer cfg sd True (x, keys, values, ad) li
            = Inr (x', keys[li := keys ! li @ [k]], values[li := values ! li @ [v]], ad @ rows)
          \<and> length x' = nEmbd cfg
          \<and> map (\<lambda>a. (layer a, head a)) rows = map (\<lambda>h. (li, h)) [0..<nHead cfg]
          \<and> (\<forall>a\<in>set rows. row_ok (length (keys ! li) + 1) a)"
proof -
  let ?n = "nEmbd cfg"
  define headDim where "headDim = nEmbd cfg div nHead cfg"
  from assms(1) have n0: "0 < ?n" and h0: "0 < nHead cfg" and dv: "nHead cfg dvd ?n"
    and ll: "length (layers sd) = nLayer cfg" and lo: "\<forall>lp\<in>set (layers sd). layer_ok ?n lp"
    by (simp_all add: shape_ok_def)
  have hd0: "0 < headDim" and hdn: "nHead cfg * headDim = ?n"
    using n0 h0 dv by (auto simp: headDim_def dvd_div_eq_0_iff)
  from assms(2) n0 have "x \<noteq> []" by auto
  from rmsnorm_Inr [OF this] assms(2) obtain x1 where x1: "rmsnorm x = Inr x1" "length x1 = ?n" by auto
  define lp where "lp = layers sd ! li"
  have dlp: "deref (layers sd) li = Inr lp" using assms(3) ll by (simp add: deref_def lp_def)
  have "lp \<in> set (layers sd)" using assms(3) ll by (simp add: lp_def)
  with lo have lpo: "layer_ok ?n lp" by blast
  then have mq: "matrix_ok ?n ?n (attn_wq lp)" and mk: "matrix_ok ?n ?n (attn_wk lp)"
    and mv: "matrix_ok ?n ?n (attn_wv lp)" and mo: "matrix_ok ?n ?n (attn_wo lp)"
    and m1: "matrix_ok (4 * ?n) ?n (mlp_fc1 lp)" and m2: "matrix_ok ?n (4 * ?n) (mlp_fc2 lp)"
    by (simp_all add: layer_ok_def)
  from linear_matrix_ok [OF mq n0] obtain q where q: "linear_gpt x1 (attn_wq lp) = Inr q" "length q = ?n" by blast
  from linear_matrix_ok [OF mk n0] obtain k where k: "linear_gpt x1 (attn_wk lp) = Inr k" by blast
  from linear_matrix_ok [OF mv n0] obtain v where v: "linear_gpt x1 (attn_wv lp) = Inr v" by blast
  have dk: "deref keys li = Inr (keys ! li)" and dv': "deref values li = Inr (values ! li)"
    using assms(4,5) by (simp_all add: deref_def)
  define keys' where "keys' = keys[li := keys ! li @ [k]]"
  define values' where "values' = values[li := values ! li @ [v]]"
  have kl: "keys' ! li = keys ! li @ [k]" and vl: "values' ! li = values ! li @ [v]"
    using assms(4,5) by (simp_all add: keys'_def values'_def)
  have c1: "keys' ! li \<noteq> []" and c2: "length (keys' ! li) \<le> length (values' ! li)"
    and c3: "length (keys' ! li) = length (keys ! li) + 1"
    using assms(6) by (simp_all add: kl vl)
  have "nHead cfg * headDim \<le> length q" using hdn q(2) by simp
  from forward_heads_Inr [OF hd0 this c1 c2, of li ad]
  obtain xAttn rows where hs:
    "foldl_err (forward_head headDim True li q (keys' ! li) (values' ! li)) ([], ad) [0..<nHead cfg]
       = Inr (xAttn, ad @ rows)"
    "map (\<lambda>a. (layer a, head a)) rows = map (\<lambda>h. (li, h)) [0..<nHead cfg]"
    "\<forall>a\<in>set rows. row_ok (length (keys' ! li)) a" by blast
  from linear_matrix_ok [OF mo n0] obtain x2 where x2: "linear_gpt xAttn (attn_wo lp) = Inr x2" "length x2 = ?n" by blast
  define x3 where "x3 = map (\<lambda>i. x2 ! i + x ! i) [0..<length x2]"
  have "x3 \<noteq> []" using x2(2) n0 by (auto simp: x3_def)
  from rmsnorm_Inr [OF this] obtain x4 where x4: "rmsnorm x3 = Inr x4" by blast
  from linear_matrix_ok [OF m1 n0] obtain x5 where x5: "linear_gpt x4 (mlp_fc1 lp) = Inr x5" by blast
  have "0 < 4 * ?n" using n0 by simp
  from linear_matrix_ok [OF m2 this] obtain x6 where
    x6: "linear_gpt (map (\<lambda>xi. max 0 xi) x5) (mlp_fc2 lp) = Inr x6" "length x6 = ?n" by blast
  define x7 where "x7 = map (\<lambda>i. x6 ! i + x3 ! i) [0..<length x6]"
  have "forward_layer cfg sd True (x, keys, values, ad) li = Inr (x7, keys', values', ad @ rows)"
    unfolding forward_layer_def Let_def headDim_def [symmetric]
    by (simp add: x1(1) dlp q(1) k v dk dv' keys'_def [symmetric] values'_def [symmetric] hs(1) x2(1)
          x3_def [symmetric] x4 x5 x6(1) x7_def [symmetric])
  moreover have "length x7 = ?n" using x6(2) by (simp add: x7_def)
  ultimately show ?thesis using hs(2,3) c3 unfolding keys'_def values'_def by auto
qed

lemma forward_layers_Inr:
  assumes "shape_ok cfg sd" "length x = nEmbd cfg"
    and "length keys = nLayer cfg" "length values = nLayer cfg"
    and "\<forall>li<nLayer cfg. length (keys ! li) = p \<and> length (values ! li) = p"
    and "n \<le> nLayer cfg"
  shows "\<exists>x' keys' values' rows.
            foldl_err (forward_layer cfg sd True) (x, keys, values, ad) [0..<n]
              = Inr (x', keys', values', ad @ rows)
          \<and> length x' = nEmbd cfg \<and> length keys' = nLayer cfg \<and> length values' = nLayer cfg
          \<and> (\<forall>li<nLayer cfg. length (keys' ! li) = (if li < n then p + 1 else p)
                             \<and> length (values' ! li) = (if li < n then p + 1 else p))
          \<and> map (\<lambda>a. (layer a, head a)) rows
              = concat (map (\<lambda>li. map (\<lambda>h. (li, h)) [0..<nHead cfg]) [0..<n])
          \<and> (\<forall>a\<in>set rows. row_ok (p + 1) a)"
  using assms(6)
proof (induction n)
  case 0
  with assms(2,3,4,5) show ?case by simp
next
  case (Suc n)
  then obtain x1 keys1 values1 rows1 where
    IH: "foldl_err (forward_layer cfg sd True) (x, keys, values, ad) [0..<n]
              = Inr (x1, keys1, values1, ad @ rows1)"
      "length x1 = nEmbd cfg" "length keys1 = nLayer cfg" "length values1 = nLayer cfg"
      "\<forall>li<nLayer cfg. length (keys1 ! li) = (if li < n then p + 1 else p)
                             \<and> length (values1 ! li) = (if li < n then p + 1 else p)"
      "map (\<lambda>a. (layer a, head a)) rows1
              = concat (map (\<lambda>li. map (\<lambda>h. (li, h)) [0..<nHead cfg]) [0..<n])"
      "\<forall>a\<in>set rows1. row_ok (p + 1) a" by auto
  from Suc.prems have n: "n < nLayer cfg" by simp
  with IH(3,4,5) have a: "n < length keys1" "n < length values1"
    and b: "length (keys1 ! n) = p" "length (values1 ! n) = p" by auto
  from b have c: "length (values1 ! n) = length (keys1 ! n)" by simp
  from forward_layer_Inr [OF assms(1) IH(2) n a c, of "ad @ rows1"]
  obtain x2 k v rows2 where
    L: "forward_layer cfg sd True (x1, keys1, values1, ad @ rows1) n
            = Inr (x2, keys1[n := keys1 ! n @ [k]], values1[n := values1 ! n @ [v]], (ad @ rows1) @ rows2)"
      "length x2 = nEmbd cfg"
      "map (\<lambda>a. (layer a, head a)) rows2 = map (\<lambda>h. (n, h)) [0..<nHead cfg]"
      "\<forall>a\<in>set rows2. row_ok (length (keys1 ! n) + 1) a" by blast
  let ?k = "keys1[n := keys1 ! n @ [k]]" and ?v = "values1[n := values1 ! n @ [v]]"
  have "foldl_err (forward_layer cfg sd True) (x, keys, values, ad) [0..<Suc n]
          = Inr (x2, ?k, ?v, ad @ (rows1 @ rows2))"
    by (simp add: foldl_err_append IH(1) L(1))
  moreover have "length ?k = nLayer cfg" "length ?v = nLayer cfg" using IH(3,4) by simp_all
  moreover have "\<forall>li<nLayer cfg. length (?k ! li) = (if li < Suc n then p + 1 else p)
                             \<and> length (?v ! li) = (if li < Suc n then p + 1 else p)"
    using IH(3,4,5) b by (auto simp: nth_list_update less_Suc_eq)
  moreover have "map (\<lambda>a. (layer a, head a)) (rows1 @ rows2)
              = concat (map (\<lambda>li. map (\<lambda>h. (li, h)) [0..<nHead cfg]) [0..<Suc n])"
    using IH(6) L(3) by simp
  moreover have "\<forall>a\<in>set (rows1 @ rows2). row_ok (p + 1) a" using IH(7) L(4) b by auto
  ultimately show ?case using L(2) by blast
qed

lemma cache_ok_nth: "cache_ok n p c \<longleftrightarrow> length c = n \<and> (\<forall>li<n. length (c ! li) = p)"
  by (auto simp: cache_ok_def all_set_conv_all_nth)

lemma forward_Inr:
  assumes "shape_ok cfg sd" "tokenId < cfg_vocabSize cfg" "posId < blockSize cfg"
    and "cache_ok (nLayer cfg) posId keys" "cache_ok (nLayer cfg) posId values"
  shows "\<exists>logits attn keys' values'.
            forward cfg sd (Some tokenId) posId keys values True = Inr (logits, attn, keys', values')
          \<and> length logits = cfg_vocabSize cfg
          \<and> map (\<lambda>a. (layer a, head a)) attn
              = concat (map (\<lambda>li. map (\<lambda>h. (li, h)) [0..<nHead cfg]) [0..<nLayer cfg])
          \<and> (\<forall>a\<in>set attn. row_ok (posId + 1) a)
          \<and> cache_ok (nLayer cfg) (posId + 1) keys' \<and> cache_ok (nLayer cfg) (posId + 1) values'"
proof -
  let ?n = "nEmbd cfg"
  from assms(1) have n0: "0 < ?n" and mt: "matrix_ok (cfg_vocabSize cfg) ?n (wte sd)"
    and mp: "matrix_ok (blockSize cfg) ?n (wpe sd)"
    and mh: "matrix_ok (cfg_vocabSize cfg) ?n (lm_head sd)"
    by (simp_all add: shape_ok_def)
  define tokEmb where "tokEmb = wte sd ! tokenId"
  define posEmb where "posEmb = wpe sd ! posId"
  have te: "array_get (wte sd) (Some tokenId) = Some tokEmb" and tl: "length tokEmb = ?n"
    using mt assms(2) by (simp_all add: array_get_def tokEmb_def matrix_ok_def)
  have tne: "tokEmb \<noteq> []" using tl n0 by auto
  have pe: "deref (wpe sd) posId = Inr posEmb"
    using mp assms(3) by (simp add: deref_def posEmb_def matrix_ok_def)
  define x0 where "x0 = map (\<lambda>i. tokEmb ! i + posEmb ! i) [0..<length tokEmb]"
  have "x0 \<noteq> []" using tne by (simp add: x0_def)
  from rmsnorm_Inr [OF this] obtain x1 where x1: "rmsnorm x0 = Inr x1" "length x1 = length x0" by blast
  have x1l: "length x1 = ?n" using x1(2) tl by (simp add: x0_def)
  from assms(4,5) have k: "length keys = nLayer cfg" "length values = nLayer cfg"
      "\<forall>li<nLayer cfg. length (keys ! li) = posId \<and> length (values ! li) = posId"
    by (simp_all add: cache_ok_nth)
  from forward_layers_Inr [OF assms(1) x1l k order_refl, of "[]"]
  obtain x2 keys' values' rows where
    L: "foldl_err (forward_layer cfg sd True) (x1, keys, values, []) [0..<nLayer cfg]
              = Inr (x2, keys', values', rows)"
      "length keys' = nLayer cfg" "length values' = nLayer cfg"
      "\<forall>li<nLayer cfg. length (keys' ! li) = posId + 1 \<and> length (values' ! li) = posId + 1"
      "map (\<lambda>a. (layer a, head a)) rows
              = concat (map (\<lambda>li. map (\<lambda>h. (li, h)) [0..<nHead cfg]) [0..<nLayer cfg])"
      "\<forall>a\<in>set rows. row_ok (posId + 1) a" by auto
  from linear_matrix_ok [OF mh n0] obtain logits where
    lg: "linear_gpt x2 (lm_head sd) = Inr logits" "length logits = cfg_vocabSize cfg" by blast
  have "forward cfg sd (Some tokenId) posId keys values True = Inr (logits, rows, keys', values')"
    unfolding forward_def by (simp add: te tne pe Let_def x0_def [symmetric] x1(1) L(1) lg(1))
  with lg(2) L(2-6) show ?thesis by (auto simp: cache_ok_nth)
qed

lemma tiny_shape_ok: "shape_ok tiny_cfg tiny_sd"
  by (simp add: shape_ok_def tiny_cfg_def tiny_sd_def matrix_ok_def layer_ok_def)

text \<open>
  C2. When \<open>forward\<close> is called at query position \<open>posId\<close> with caches that hold the
  \<open>posId\<close> earlier positions in every layer (the caches are empty at position 0 and each
  call appends one position, so this is the state of every call that \<open>trainStep\<close> and
  \<open>generate\<close> make), it returns one attention record per layer and head, in order; each
  holds one weight row of length \<open>posId + 1\<close> (the key positions \<open>0..posId\<close>, none beyond),
  whose entries lie in [0, 1] and sum to 1; and the caches then hold \<open>posId + 1\<close>
  positions.
\<close>

theorem forward_attention_causal:
  assumes "shape_ok cfg sd" "tokenId < cfg_vocabSize cfg" "posId < blockSize cfg"
    and "cache_ok (nLayer cfg) posId keys" "cache_ok (nLayer cfg) posId values"
  shows "\<exists>logits attn keys' values'.
            forward cfg sd (Some tokenId) posId keys values True = Inr (logits, attn, keys', values')
          \<and> map (\<lambda>a. (layer a, head a)) attn
              = concat (map (\<lambda>li. map (\<lambda>h. (li, h)) [0..<nHead cfg]) [0..<nLayer cfg])
          \<and> (\<forall>a\<in>set attn. \<exists>row. weights a = [row] \<and> length row = posId + 1
                  \<and> sum_list row = 1 \<and> (\<forall>w\<in>set row. 0 \<le> w \<and> w \<le> 1))
          \<and> cache_ok (nLayer cfg) (posId + 1) keys' \<and> cache_ok (nLayer cfg) (posId + 1) values'"
  using forward_Inr [OF assms] unfolding row_ok_def by blast

theorem forward_attention_causal_witness:
  "shape_ok tiny_cfg tiny_sd \<and> (0::nat) < cfg_vocabSize tiny_cfg \<and> (1::nat) < blockSize tiny_cfg
   \<and> cache_ok (nLayer tiny_cfg) 1 [[[5]]] \<and> cache_ok (nLayer tiny_cfg) 1 [[[7]]]
   \<and> (\<exists>logits attn keys' values'.
         forward tiny_cfg tiny_sd (Some 0) 1 [[[5]]] [[[7]]] True = Inr (logits, attn, keys', values')
         \<and> map (\<lambda>a. (layer a, head a)) attn
             = concat (map (\<lambda>li. map (\<lambda>h. (li, h)) [0..<nHead tiny_cfg]) [0..<nLayer tiny_cfg])
         \<and> (\<forall>a\<in>set attn. \<exists>row. weights a = [row] \<and> length row = 1 + 1
                  \<and> sum_list row = 1 \<and> (\<forall>w\<in>set row. 0 \<le> w \<and> w \<le> 1))
         \<and> cache_ok (nLayer tiny_cfg) (1 + 1) keys' \<and> cache_ok (nLayer tiny_cfg) (1 + 1) values')"
proof -
  have h: "shape_ok tiny_cfg tiny_sd" "(0::nat) < cfg_vocabSize tiny_cfg" "(1::nat) < blockSize tiny_cfg"
    "cache_ok (nLayer tiny_cfg) 1 [[[5]]]" "cache_ok (nLayer tiny_cfg) 1 [[[7]]]"
    by (rule tiny_shape_ok) (simp_all add: tiny_cfg_def cache_ok_def)
  from forward_attention_causal [OF h] h show ?thesis by blast
qed

section \<open>Inference and the optimizer step: properties\<close>

lemma choices_in_range:
  assumes "wts \<noteq> []" "length population = length wts"
  shows "\<exists>i s'. i < length population \<and> choices population wts s = (Inr (Some (population ! i)), s')"
proof -
  obtain r s' where r: "random s = (r, s')" by (cases "random s")
  let ?cum = "cum_weights wts"
  let ?lo = "choices_search ?cum (r * ?cum ! (length ?cum - 1)) 0 (length ?cum - 1)"
  have "?lo \<le> length ?cum - 1" using choices_search_bounds [of 0 "length ?cum - 1"] by simp
  with assms have lo: "?lo < length population" by (cases wts) auto
  then have "choices population wts s = (Inr (Some (population ! ?lo)), s')"
    by (simp add: choices_def Let_def r array_get_def)
  with lo show ?thesis by blast
qed

lemma scale_logits_length [simp]: "length (scale_logits t ls) = length ls"
  by (simp add: scale_logits_def)

lemma scale_logits_Nil [simp]: "scale_logits t ls = [] \<longleftrightarrow> ls = []"
  by (simp add: scale_logits_def)

lemma generate_loop_ok:
  assumes "shape_ok cfg sd" "bos < cfg_vocabSize cfg" "len \<le> blockSize cfg"
  shows "posId \<le> len \<Longrightarrow> t < cfg_vocabSize cfg
    \<Longrightarrow> cache_ok (nLayer cfg) posId keys \<Longrightarrow> cache_ok (nLayer cfg) posId vals
    \<Longrightarrow> length tokenIds = posId
    \<Longrightarrow> (\<forall>x\<in>set tokenIds. \<exists>i. x = Some i \<and> i < cfg_vocabSize cfg \<and> i \<noteq> bos)
    \<Longrightarrow> \<exists>toks att rng'.
          generate_loop cfg sd bos temperature len posId
            (Some t, keys, vals, tokenIds, allAttention, rng) = Inr (toks, att, rng')
          \<and> length toks \<le> len
          \<and> (\<forall>x\<in>set toks. \<exists>i. x = Some i \<and> i < cfg_vocabSize cfg \<and> i \<noteq> bos)"
proof (induction "len - posId" arbitrary: posId t keys vals tokenIds allAttention rng)
  case 0
  then have "\<not> posId < len" by simp
  then have "generate_loop cfg sd bos temperature len posId
            (Some t, keys, vals, tokenIds, allAttention, rng) = Inr (tokenIds, allAttention, rng)"
    by (subst generate_loop.simps) simp
  with 0 show ?case by simp
next
  case (Suc d)
  then have lt: "posId < len" by simp
  with assms(3) have pb: "posId < blockSize cfg" by simp
  from forward_Inr [OF assms(1) Suc.prems(2) pb Suc.prems(3,4)]
  obtain logits attn keys' vals' where
    F: "forward cfg sd (Some t) posId keys vals True = Inr (logits, attn, keys', vals')"
       "length logits = cfg_vocabSize cfg"
       "cache_ok (nLayer cfg) (posId + 1) keys'" "cache_ok (nLayer cfg) (posId + 1) vals'"
    by blast
  have ne: "scale_logits temperature logits \<noteq> []" using F(2) assms(2) by auto
  from softmax_nonempty [OF ne] obtain probs where
    P: "softmax (scale_logits temperature logits) = Inr probs" by blast
  from softmax_length [OF P] F(2) have pl: "length probs = cfg_vocabSize cfg" by simp
  with assms(2) have pne: "probs \<noteq> []" by auto
  have "length [0..<cfg_vocabSize cfg] = length probs" using pl by simp
  from choices_in_range [OF pne this, of rng] obtain i rng' where
    C: "i < cfg_vocabSize cfg" "choices [0..<cfg_vocabSize cfg] probs rng = (Inr (Some i), rng')"
    by auto
  show ?case
  proof (cases "i = bos")
    case True
    have "generate_loop cfg sd bos temperature len posId
            (Some t, keys, vals, tokenIds, allAttention, rng) = Inr (tokenIds, allAttention, rng')"
      by (subst generate_loop.simps) (simp add: lt F(1) P C(2) True Let_def)
    with Suc.prems lt show ?thesis by simp
  next
    case False
    have d: "d = len - (posId + 1)" using Suc.hyps(2) by simp
    have p1: "posId + 1 \<le> len" using lt by simp
    have l1: "length (tokenIds @ [Some i]) = posId + 1" using Suc.prems(5) by simp
    have a1: "\<forall>x\<in>set (tokenIds @ [Some i]). \<exists>j. x = Some j \<and> j < cfg_vocabSize cfg \<and> j \<noteq> bos"
      using Suc.prems(6) C(1) False by auto
    from Suc.hyps(1) [OF d p1 C(1) F(3,4) l1 a1, of "merge_attention allAttention attn" rng']
    obtain toks att rng'' where
      R: "generate_loop cfg sd bos temperature len (posId + 1)
            (Some i, keys', vals', tokenIds @ [Some i], merge_attention allAttention attn, rng')
          = Inr (toks, att, rng'')" "length toks \<le> len"
         "\<forall>x\<in>set toks. \<exists>i. x = Some i \<and> i < cfg_vocabSize cfg \<and> i \<noteq> bos" by blast
    have "generate_loop cfg sd bos temperature len posId
            (Some t, keys, vals, tokenIds, allAttention, rng) = Inr (toks, att, rng'')"
      by (subst generate_loop.simps) (use R(1) in \<open>simp add: lt F(1) P C(2) False Let_def\<close>)
    with R(2,3) show ?thesis by blast
  qed
qed

lemma cache_ok_replicate: "cache_ok n 0 (replicate n [])"
  by (simp add: cache_ok_def)

text \<open>
  The loop of \<open>generate\<close> follows the draws: entered in the state \<open>state_at\<close> gives for its
  position, it returns the tokens drawn, and it ends either at \<open>len\<close> or with the draw of the
  marker.
\<close>

declare state_at.simps [simp del]

lemma generate_loop_run:
  assumes "shape_ok cfg sd" "bos < cfg_vocabSize cfg" "len \<le> blockSize cfg"
  shows "posId \<le> len \<Longrightarrow> t < cfg_vocabSize cfg
    \<Longrightarrow> cache_ok (nLayer cfg) posId keys \<Longrightarrow> cache_ok (nLayer cfg) posId vals
    \<Longrightarrow> length tokenIds = posId
    \<Longrightarrow> state_at cfg sd bos temperature rng0 posId = Inr (Some t, keys, vals, rng)
    \<Longrightarrow> (\<forall>j<posId. \<exists>ks vs r. state_at cfg sd bos temperature rng0 (Suc j) = Inr (tokenIds ! j, ks, vs, r))
    \<Longrightarrow> \<exists>toks att rng'.
          generate_loop cfg sd bos temperature len posId
            (Some t, keys, vals, tokenIds, allAttention, rng) = Inr (toks, att, rng')
          \<and> (\<forall>j<length toks. \<exists>ks vs r.
                state_at cfg sd bos temperature rng0 (Suc j) = Inr (toks ! j, ks, vs, r))
          \<and> (length toks = len
               \<and> (\<exists>t' ks vs. state_at cfg sd bos temperature rng0 len = Inr (t', ks, vs, rng'))
             \<or> length toks < len
               \<and> (\<exists>st att' ks vs. state_at cfg sd bos temperature rng0 (length toks) = Inr st
                     \<and> sample_token cfg sd temperature (length toks) st
                         = Inr (Some bos, att', ks, vs, rng')))"
proof (induction "len - posId" arbitrary: posId t keys vals tokenIds allAttention rng)
  case 0
  then have "\<not> posId < len" by simp
  then have "generate_loop cfg sd bos temperature len posId
            (Some t, keys, vals, tokenIds, allAttention, rng) = Inr (tokenIds, allAttention, rng)"
    by (subst generate_loop.simps) simp
  moreover from 0 have "length tokenIds = len" "posId = len" by simp_all
  ultimately show ?case using "0.prems"(6,7) by auto
next
  case (Suc d)
  then have lt: "posId < len" by simp
  with assms(3) have pb: "posId < blockSize cfg" by simp
  from forward_Inr [OF assms(1) Suc.prems(2) pb Suc.prems(3,4)]
  obtain logits attn keys' vals' where
    F: "forward cfg sd (Some t) posId keys vals True = Inr (logits, attn, keys', vals')"
       "length logits = cfg_vocabSize cfg"
       "cache_ok (nLayer cfg) (posId + 1) keys'" "cache_ok (nLayer cfg) (posId + 1) vals'"
    by blast
  have ne: "scale_logits temperature logits \<noteq> []" using F(2) assms(2) by auto
  from softmax_nonempty [OF ne] obtain probs where
    P: "softmax (scale_logits temperature logits) = Inr probs" by blast
  from softmax_length [OF P] F(2) have pl: "length probs = cfg_vocabSize cfg" by simp
  with assms(2) have pne: "probs \<noteq> []" by auto
  have "length [0..<cfg_vocabSize cfg] = length probs" using pl by simp
  from choices_in_range [OF pne this, of rng] obtain i rng' where
    C: "i < cfg_vocabSize cfg" "choices [0..<cfg_vocabSize cfg] probs rng = (Inr (Some i), rng')"
    by auto
  have S: "sample_token cfg sd temperature posId (Some t, keys, vals, rng)
             = Inr (Some i, attn, keys', vals', rng')"
    by (simp add: sample_token_def F(1) P C(2) Let_def)
  show ?case
  proof (cases "i = bos")
    case True
    have "generate_loop cfg sd bos temperature len posId
            (Some t, keys, vals, tokenIds, allAttention, rng) = Inr (tokenIds, allAttention, rng')"
      by (subst generate_loop.simps) (simp add: lt F(1) P C(2) True Let_def)
    moreover have "length tokenIds < len" using Suc.prems(5) lt by simp
    moreover have "sample_token cfg sd temperature (length tokenIds) (Some t, keys, vals, rng)
             = Inr (Some bos, attn, keys', vals', rng')"
      using S True Suc.prems(5) by simp
    ultimately show ?thesis using Suc.prems(5,6,7) by auto
  next
    case False
    have d: "d = len - (posId + 1)" using Suc.hyps(2) by simp
    have p1: "posId + 1 \<le> len" using lt by simp
    have l1: "length (tokenIds @ [Some i]) = posId + 1" using Suc.prems(5) by simp
    have s1: "state_at cfg sd bos temperature rng0 (posId + 1) = Inr (Some i, keys', vals', rng')"
      by (simp add: state_at.simps Suc.prems(6) S)
    have a1: "\<forall>j<posId + 1. \<exists>ks vs r. state_at cfg sd bos temperature rng0 (Suc j)
                 = Inr ((tokenIds @ [Some i]) ! j, ks, vs, r)"
    proof (intro allI impI)
      fix j assume "j < posId + 1"
      then consider "j < posId" | "j = posId" by fastforce
      then show "\<exists>ks vs r. state_at cfg sd bos temperature rng0 (Suc j)
                 = Inr ((tokenIds @ [Some i]) ! j, ks, vs, r)"
      proof cases
        case 1
        with Suc.prems(5,7) show ?thesis by (simp add: nth_append)
      next
        case 2
        with s1 Suc.prems(5) show ?thesis by (simp add: nth_append)
      qed
    qed
    from Suc.hyps(1) [OF d p1 C(1) F(3,4) l1 s1 a1, of "merge_attention allAttention attn"]
    obtain toks att rng'' where
      R: "generate_loop cfg sd bos temperature len (posId + 1)
            (Some i, keys', vals', tokenIds @ [Some i], merge_attention allAttention attn, rng')
          = Inr (toks, att, rng'')"
         "\<forall>j<length toks. \<exists>ks vs r.
                state_at cfg sd bos temperature rng0 (Suc j) = Inr (toks ! j, ks, vs, r)"
         "length toks = len
               \<and> (\<exists>t' ks vs. state_at cfg sd bos temperature rng0 len = Inr (t', ks, vs, rng''))
             \<or> length toks < len
               \<and> (\<exists>st att' ks vs. state_at cfg sd bos temperature rng0 (length toks) = Inr st
                     \<and> sample_token cfg sd temperature (length toks) st
                         = Inr (Some bos, att', ks, vs, rng''))" by blast
    have "generate_loop cfg sd bos temperature len posId
            (Some t, keys, vals, tokenIds, allAttention, rng) = Inr (toks, att, rng'')"
      by (subst generate_loop.simps) (use R(1) in \<open>simp add: lt F(1) P C(2) False Let_def\<close>)
    with R(2,3) show ?thesis by blast
  qed
qed

text \<open>
  C8. For every well-shaped model and every temperature other than 0 (where \<open>1 / 0\<close> is not a
  number of the model), \<open>generate\<close> without \<open>maxLen\<close> returns, and its run is the run of
  \<open>state_at\<close>, which starts from the marker at position 0 with empty caches:
  \<^item> the token at index \<open>j\<close> of the result is the token drawn by the iteration at position
    \<open>j\<close>, the one that the iteration at position \<open>j + 1\<close> is entered with;
  \<^item> the loop stops either with \<open>blockSize\<close> tokens, at the context size, or with fewer,
    because the next draw, at position \<open>length toks\<close>, is the marker, which is not stored;
    the PRNG returned is the PRNG after the last draw;
  \<^item> so the result has at most \<open>blockSize\<close> tokens, the marker is not among them, and
    every one is an id below \<open>vocabSize\<close>.
\<close>

theorem generate_tokens_bounded:
  assumes "shape_ok cfg sd" "bos < cfg_vocabSize cfg" "temperature \<noteq> 0"
  shows "\<exists>toks att rng'.
           generate cfg sd bos rng temperature None = Inr (toks, att, rng')
           \<and> (\<forall>j<length toks. \<exists>ks vs r.
                 state_at cfg sd bos temperature rng (Suc j) = Inr (toks ! j, ks, vs, r))
           \<and> (length toks = blockSize cfg
                \<and> (\<exists>t ks vs. state_at cfg sd bos temperature rng (blockSize cfg) = Inr (t, ks, vs, rng'))
              \<or> length toks < blockSize cfg
                \<and> (\<exists>st att' ks vs.
                      state_at cfg sd bos temperature rng (length toks) = Inr st
                      \<and> sample_token cfg sd temperature (length toks) st
                          = Inr (Some bos, att', ks, vs, rng')))
           \<and> length toks \<le> blockSize cfg
           \<and> Some bos \<notin> set toks
           \<and> (\<forall>x\<in>set toks. \<exists>i. x = Some i \<and> i < cfg_vocabSize cfg)"
proof -
  let ?k = "replicate (nLayer cfg) []"
  have g: "generate cfg sd bos rng temperature None
               = generate_loop cfg sd bos temperature (blockSize cfg) 0 (Some bos, ?k, ?k, [], [], rng)"
    by (simp add: generate_def)
  have s0: "state_at cfg sd bos temperature rng 0 = Inr (Some bos, ?k, ?k, rng)"
    by (simp add: state_at.simps)
  from generate_loop_ok [OF assms(1,2) order_refl, of 0 bos ?k ?k "[]" temperature "[]" rng]
  obtain toks att rng' where
    R: "generate_loop cfg sd bos temperature (blockSize cfg) 0 (Some bos, ?k, ?k, [], [], rng)
        = Inr (toks, att, rng')" "length toks \<le> blockSize cfg"
       "\<forall>x\<in>set toks. \<exists>i. x = Some i \<and> i < cfg_vocabSize cfg \<and> i \<noteq> bos"
    using assms(2) cache_ok_replicate by auto
  from generate_loop_run [OF assms(1,2) order_refl, of 0 bos ?k ?k "[]" temperature rng rng "[]"]
    s0 assms(2) cache_ok_replicate
  have T: "(\<forall>j<length toks. \<exists>ks vs r.
                 state_at cfg sd bos temperature rng (Suc j) = Inr (toks ! j, ks, vs, r))"
      "length toks = blockSize cfg
                \<and> (\<exists>t ks vs. state_at cfg sd bos temperature rng (blockSize cfg) = Inr (t, ks, vs, rng'))
              \<or> length toks < blockSize cfg
                \<and> (\<exists>st att' ks vs.
                      state_at cfg sd bos temperature rng (length toks) = Inr st
                      \<and> sample_token cfg sd temperature (length toks) st
                          = Inr (Some bos, att', ks, vs, rng'))"
    unfolding R(1) by auto
  from R(3) have "Some bos \<notin> set toks" "\<forall>x\<in>set toks. \<exists>i. x = Some i \<and> i < cfg_vocabSize cfg"
    by auto
  with g R(1,2) T show ?thesis by simp
qed

theorem generate_tokens_bounded_witness:
  "shape_ok tiny_cfg tiny_sd \<and> (1::nat) < cfg_vocabSize tiny_cfg \<and> (1 / 2 :: real) \<noteq> 0
   \<and> (\<exists>toks att rng'.
         generate tiny_cfg tiny_sd 1 (MersenneTwister_new 42) (1 / 2) None = Inr (toks, att, rng')
         \<and> (\<forall>j<length toks. \<exists>ks vs r.
               state_at tiny_cfg tiny_sd 1 (1 / 2) (MersenneTwister_new 42) (Suc j)
                 = Inr (toks ! j, ks, vs, r))
         \<and> (length toks = blockSize tiny_cfg
              \<and> (\<exists>t ks vs. state_at tiny_cfg tiny_sd 1 (1 / 2) (MersenneTwister_new 42) (blockSize tiny_cfg)
                                = Inr (t, ks, vs, rng'))
            \<or> length toks < blockSize tiny_cfg
              \<and> (\<exists>st att' ks vs.
                    state_at tiny_cfg tiny_sd 1 (1 / 2) (MersenneTwister_new 42) (length toks) = Inr st
                    \<and> sample_token tiny_cfg tiny_sd (1 / 2) (length toks) st
                        = Inr (Some 1, att', ks, vs, rng')))
         \<and> length toks \<le> blockSize tiny_cfg \<and> Some 1 \<notin> set toks
         \<and> (\<forall>x\<in>set toks. \<exists>i. x = Some i \<and> i < cfg_vocabSize tiny_cfg))"
proof -
  have h: "shape_ok tiny_cfg tiny_sd" "(1::nat) < cfg_vocabSize tiny_cfg" "(1 / 2 :: real) \<noteq> 0"
    by (rule tiny_shape_ok) (simp_all add: tiny_cfg_def)
  from generate_tokens_bounded [OF h, of "MersenneTwister_new 42"] h show ?thesis by blast
qed

text \<open>
  C6 fails on the code: \<open>generate\<close> divides the logits by the temperature as given, with
  no floor. With temperature \<open>-1\<close> the logits \<open>[1, 2]\<close> are divided by a negative number
  and become \<open>[-1, -2]\<close>.
\<close>

theorem generate_temperature_not_clamped:
  "scale_logits (- 1) [1, 2] = [- 1, - 2]"
  by (simp add: scale_logits_def)

text \<open>
  C7 fails on the code: the learning rate of a step is
  \<open>learningRate * (1 - step / numSteps)\<close>, with no floor; it is negative as soon as the step
  count exceeds \<open>numSteps\<close>.
\<close>

theorem trainStep_lrT_negative:
  "lrT adam_default 5001 5000 < 0"
  by (simp add: lrT_def adam_default_def)

section \<open>The constructed model\<close>

text \<open>
  The constructor, when its shuffle ends, builds a model of the shape that \<open>forward\<close> and
  \<open>generate\<close> expect, with the marker as the last id of the vocabulary; \<open>generate\<close> on it,
  with a temperature other than 0, returns at most 16 character ids.
\<close>

lemma matrix_row_length: "length (fst (matrix_row n std s)) = n"
  by (induction n arbitrary: s) (simp_all add: split_beta Let_def)

lemma matrix_init_ok: "matrix_ok nout nin (fst (matrix_init nout nin std s))"
  by (induction nout arbitrary: s) (simp_all add: split_beta Let_def matrix_ok_def matrix_row_length)

lemma init_layers_ok:
  "length (fst (init_layers i n s)) = i \<and> (\<forall>lp\<in>set (fst (init_layers i n s)). layer_ok n lp)"
  by (induction i arbitrary: s) (simp_all add: split_beta Let_def layer_ok_def matrix_init_ok)

lemma createTokenizer_BOS:
  "BOS (createTokenizer ds) = length (uchars (createTokenizer ds))"
  "vocabSize (createTokenizer ds) = BOS (createTokenizer ds) + 1"
  by (simp_all add: createTokenizer_def Let_def)

lemma GPTModel_new_shape_ok:
  assumes "GPTModel_new n NAMES = Some mdl"
  shows "shape_ok (model_config mdl) (model_stateDict mdl)"
    and "BOS (model_tokenizer mdl) + 1 = cfg_vocabSize (model_config mdl)"
    and "model_config mdl = DEFAULT_CONFIG\<lparr> cfg_vocabSize := vocabSize (model_tokenizer mdl) \<rparr>"
    and "length (model_m mdl) = length (params_of (model_stateDict mdl))"
    and "length (model_v mdl) = length (params_of (model_stateDict mdl))"
    and "model_step mdl = 0"
proof -
  from assms obtain ds s0 where sh: "shuffle NAMES (MersenneTwister_new n) = Some (ds, s0)"
    by (auto simp: GPTModel_new_def split: option.splits)
  define tk where "tk = createTokenizer ds"
  define cfg where "cfg = DEFAULT_CONFIG\<lparr> cfg_vocabSize := vocabSize tk \<rparr>"
  obtain w1 s1 where w1: "matrix_init (cfg_vocabSize cfg) (nEmbd cfg) (8 / 100) s0 = (w1, s1)"
    by (cases "matrix_init (cfg_vocabSize cfg) (nEmbd cfg) (8 / 100) s0")
  obtain w2 s2 where w2: "matrix_init (blockSize cfg) (nEmbd cfg) (8 / 100) s1 = (w2, s2)"
    by (cases "matrix_init (blockSize cfg) (nEmbd cfg) (8 / 100) s1")
  obtain w3 s3 where w3: "matrix_init (cfg_vocabSize cfg) (nEmbd cfg) (8 / 100) s2 = (w3, s3)"
    by (cases "matrix_init (cfg_vocabSize cfg) (nEmbd cfg) (8 / 100) s2")
  obtain ls s4 where ls: "init_layers (nLayer cfg) (nEmbd cfg) s3 = (ls, s4)"
    by (cases "init_layers (nLayer cfg) (nEmbd cfg) s3")
  define sd where "sd = \<lparr> wte = w1, wpe = w2, lm_head = w3, layers = ls \<rparr>"
  have m: "mdl = \<lparr> model_config = cfg, model_stateDict = sd, model_tokenizer = tk,
                     model_rng = s4, model_docs = ds,
                     model_m = replicate (length (params_of sd)) 0,
                     model_v = replicate (length (params_of sd)) 0,
                     model_step = 0, model_adam = adam_default \<rparr>"
    using assms unfolding GPTModel_new_def sh option.case prod.case Let_def
      tk_def [symmetric] cfg_def [symmetric] w1 w2 w3 ls sd_def [symmetric]
    by simp
  have o1: "matrix_ok (cfg_vocabSize cfg) (nEmbd cfg) w1"
    using matrix_init_ok [of "cfg_vocabSize cfg" "nEmbd cfg" "8 / 100" s0] by (simp only: w1 fst_conv)
  have o2: "matrix_ok (blockSize cfg) (nEmbd cfg) w2"
    using matrix_init_ok [of "blockSize cfg" "nEmbd cfg" "8 / 100" s1] by (simp only: w2 fst_conv)
  have o3: "matrix_ok (cfg_vocabSize cfg) (nEmbd cfg) w3"
    using matrix_init_ok [of "cfg_vocabSize cfg" "nEmbd cfg" "8 / 100" s2] by (simp only: w3 fst_conv)
  have o4: "length ls = nLayer cfg" "\<forall>lp\<in>set ls. layer_ok (nEmbd cfg) lp"
    using init_layers_ok [of "nLayer cfg" "nEmbd cfg" s3] unfolding ls fst_conv by blast+
  have c: "nEmbd cfg = 16" "nHead cfg = 4" by (simp_all add: cfg_def DEFAULT_CONFIG_def)
  show "shape_ok (model_config mdl) (model_stateDict mdl)"
    unfolding m using o1 o2 o3 o4 c by (simp add: shape_ok_def sd_def)
  show "BOS (model_tokenizer mdl) + 1 = cfg_vocabSize (model_config mdl)"
    unfolding m by (simp add: cfg_def tk_def createTokenizer_BOS)
  show "model_config mdl = DEFAULT_CONFIG\<lparr> cfg_vocabSize := vocabSize (model_tokenizer mdl) \<rparr>"
    unfolding m by (simp add: cfg_def)
  show "length (model_m mdl) = length (params_of (model_stateDict mdl))"
    "length (model_v mdl) = length (params_of (model_stateDict mdl))" "model_step mdl = 0"
    unfolding m by simp_all
qed

lemma shuffle_draw_le:
  assumes "shuffle_draw k i s = Some y"
  shows "fst y \<le> i"
proof (rule shuffle_draw.raw_induct [where P = "\<lambda>k i s y. fst y \<le> i", OF _ assms])
  fix f :: "nat \<Rightarrow> nat \<Rightarrow> MersenneTwister \<Rightarrow> (nat \<times> MersenneTwister) option"
  fix k i s ka
  assume IH: "\<And>k i s y. f k i s = Some y \<Longrightarrow> fst y \<le> i"
  assume st: "(case int32 s of
      (y, s') \<Rightarrow>
        if i < unat (drop_bit (32 - k) y) then f k i s'
        else Some (unat (drop_bit (32 - k) y), s')) = Some ka"
  obtain y s' where e: "int32 s = (y, s')" by (cases "int32 s")
  show "fst ka \<le> i"
  proof (cases "i < unat (drop_bit (32 - k) y)")
    case True
    with st e have "f k i s' = Some ka" by simp
    from IH [OF this] show ?thesis .
  next
    case False
    with st e show ?thesis by auto
  qed
qed

lemma GPTModel_new_generate:
  assumes "GPTModel_new n NAMES = Some mdl" "temperature \<noteq> 0"
  shows "\<exists>toks att mdl'.
           GPTModel_generate mdl temperature None = Inr ((toks, att), mdl')
           \<and> length toks \<le> 16
           \<and> (\<forall>x\<in>set toks. \<exists>i. x = Some i \<and> i < BOS (model_tokenizer mdl))"
proof -
  define cfg where "cfg = model_config mdl"
  define sd where "sd = model_stateDict mdl"
  define bos where "bos = BOS (model_tokenizer mdl)"
  from GPTModel_new_shape_ok [OF assms(1)]
  have h: "shape_ok cfg sd" "bos + 1 = cfg_vocabSize cfg" "blockSize cfg = 16"
    by (simp_all add: cfg_def sd_def bos_def DEFAULT_CONFIG_def)
  then have b: "bos < cfg_vocabSize cfg" by simp
  from generate_loop_ok [OF h(1) b order_refl, of 0 bos "replicate (nLayer cfg) []"
      "replicate (nLayer cfg) []" "[]" temperature "[]" "model_rng mdl"]
  obtain toks att rng' where
    R: "generate_loop cfg sd bos temperature (blockSize cfg) 0
                   (Some bos, replicate (nLayer cfg) [], replicate (nLayer cfg) [], [], [], model_rng mdl)
        = Inr (toks, att, rng')" "length toks \<le> blockSize cfg"
       "\<forall>x\<in>set toks. \<exists>i. x = Some i \<and> i < cfg_vocabSize cfg \<and> i \<noteq> bos"
    using b cache_ok_replicate by auto
  have g: "GPTModel_generate mdl temperature None = Inr ((toks, att), mdl\<lparr> model_rng := rng' \<rparr>)"
    using R(1) by (simp add: GPTModel_generate_def generate_def cfg_def sd_def bos_def)
  have "\<forall>x\<in>set toks. \<exists>i. x = Some i \<and> i < bos"
  proof
    fix x assume "x \<in> set toks"
    with R(3) obtain i where "x = Some i" "i < cfg_vocabSize cfg" "i \<noteq> bos" by blast
    with h(2) show "\<exists>i. x = Some i \<and> i < bos" by auto
  qed
  with g R(2) h(3) show ?thesis unfolding bos_def by auto
qed

end
